theory Spec2Isabelle
  imports Complex_Main "HOL-Library.Word"
begin

section \<open>HydroZynq acquisition firmware: \<open>software/app/main_bin.c\<close>\<close>

text \<open>
  The development embeds the command handler (\<open>parse_packet\<close>, \<open>receive_command\<close>),
  the silent-running request (\<open>request_thruster_shutdown\<close>) and one iteration of the
  scheduler loop of \<open>go\<close>. Collaborators whose code is not part of \<open>main_bin.c\<close>
  (the tick conversions of \<open>time_util.h\<close>, \<open>acquire_sync\<close>, \<open>record\<close>, \<open>truncate\<close>,
  \<open>cross_correlate\<close>, the transmitters) are function parameters or per-cycle inputs.
\<close>

subsection \<open>State\<close>

type_synonym tick_t = "64 word"
type_synonym uint32_t = "32 word"

text \<open>
  \<open>HydroZynqParams\<close> is declared in a header outside \<open>main_bin.c\<close>; the fields are the ones
  \<open>main_bin.c\<close> reads and writes. The field \<open>filter\<close> is named \<open>filter_on\<close> here.
  \<open>ping_threshold\<close> holds the \<open>unsigned int\<close> the handler assigns to it.
\<close>

record HydroZynqParams =
  sample_clk_div :: uint32_t
  samples_per_packet :: uint32_t
  ping_threshold :: uint32_t
  pre_ping_duration :: tick_t
  post_ping_duration :: tick_t
  filter_on :: bool

text \<open>
  The globals \<open>params\<close>, \<open>sync\<close>, \<open>debug_stream\<close> and the local \<open>previous_ping_tick\<close> of
  \<open>go\<close>, which lives across iterations of the scheduler loop.
\<close>

record fw_state =
  params :: HydroZynqParams
  sync :: bool
  debug_stream :: bool
  previous_ping_tick :: tick_t

subsection \<open>C strings in a byte buffer\<close>

abbreviation NUL :: char where
  "NUL \<equiv> CHR 0x00"

definition cstr :: "char list \<Rightarrow> nat \<Rightarrow> string" where
  \<comment> \<open>the NUL-terminated string that starts at offset \<open>off\<close> of the buffer\<close>
  "cstr data off = takeWhile (\<lambda>c. c \<noteq> NUL) (drop off data)"

subsection \<open>\<open>parse_packet\<close>\<close>

text \<open>
  A \<open>KeyValuePair\<close> holds two pointers into the packet buffer; they are offsets here,
  and the field \<open>value\<close> is named \<open>val\<close>. \<open>parse_packet\<close> only returns pairs whose
  \<open>value\<close> is not \<open>NULL\<close>.
\<close>

record KeyValuePair =
  key :: nat
  val :: nat

text \<open>
  The first loop of \<open>parse_packet\<close> (lines 119-133). \<open>keys\<close> are the key pointers stored
  so far (\<open>*num_pairs\<close> is their number). The second \<open>if\<close> of the body reads \<open>data[i]\<close>
  after the first \<open>if\<close> may have overwritten it with NUL.
\<close>

function scan_tokens ::
  "nat \<Rightarrow> nat \<Rightarrow> char list \<Rightarrow> nat \<Rightarrow> nat list \<Rightarrow> nat \<Rightarrow> char list \<times> nat list" where
  "scan_tokens len max_pairs data i keys last_start =
     (if i < len \<and> length keys < max_pairs then
        (let hit = (data ! i = CHR '','' \<or> data ! i = NUL);
             keys' = (if hit then keys @ [last_start] else keys);
             data' = (if hit then data[i := NUL] else data);
             last_start' = (if hit then i + 1 else last_start)
         in if data' ! i = NUL then (data', keys')
            else scan_tokens len max_pairs data' (i + 1) keys' last_start')
      else (data, keys))"
  by pat_completeness auto
termination
  by (relation "measure (\<lambda>(len, max_pairs, data, i, keys, last_start). len - i)") auto

primrec first_colon :: "string \<Rightarrow> nat option" where
  \<comment> \<open>the inner loop of lines 138-146: the first \<open>j < strlen(key)\<close> with \<open>key[j] == ':'\<close>\<close>
  "first_colon [] = None"
| "first_colon (c # cs) =
     (if c = CHR '':'' then Some 0 else map_option Suc (first_colon cs))"

text \<open>
  The second loop (lines 135-149): each key is cut at its first colon; a key without a colon
  leaves \<open>value\<close> at \<open>NULL\<close> and \<open>AbortIfNot\<close> returns \<open>fail\<close> (\<open>None\<close>).
\<close>

fun split_values :: "char list \<Rightarrow> nat list \<Rightarrow> (char list \<times> KeyValuePair list) option" where
  "split_values data [] = Some (data, [])"
| "split_values data (k # ks) =
     (case first_colon (cstr data k) of
        None \<Rightarrow> None
      | Some j \<Rightarrow>
          (case split_values (data[k + j := NUL]) ks of
             None \<Rightarrow> None
           | Some (data', ps) \<Rightarrow> Some (data', \<lparr>key = k, val = k + j + 1\<rparr> # ps)))"

definition parse_packet ::
  "char list \<Rightarrow> nat \<Rightarrow> nat \<Rightarrow> (char list \<times> KeyValuePair list) option" where
  "parse_packet data len max_pairs =
     (case scan_tokens len max_pairs data 0 [] 0 of
        (data', keys) \<Rightarrow> split_values data' keys)"

subsection \<open>\<open>sscanf(value, "%u", &x)\<close>\<close>

text \<open>
  The C library call, after the C standard: leading white space is skipped; input that ends
  before any conversion is an input failure (\<open>EOF\<close>, which is \<open>-1\<close>); an optional sign and
  no digit is a matching failure (return value \<open>0\<close>); otherwise the digits are converted
  (return value \<open>1\<close>). A value that does not fit \<open>unsigned int\<close> is reduced modulo \<open>2^32\<close>
  here.
\<close>

datatype scan = ScanEOF | ScanNoMatch | Scanned uint32_t

definition isspace :: "char \<Rightarrow> bool" where
  "isspace c = ((of_char c :: nat) = 32 \<or> (9 \<le> (of_char c :: nat) \<and> (of_char c :: nat) \<le> 13))"

definition isdigit :: "char \<Rightarrow> bool" where
  "isdigit c = (48 \<le> (of_char c :: nat) \<and> (of_char c :: nat) \<le> 57)"

definition dec_value :: "string \<Rightarrow> nat" where
  "dec_value ds = foldl (\<lambda>acc c. acc * 10 + ((of_char c :: nat) - 48)) 0 ds"

definition sscanf_u :: "string \<Rightarrow> scan" where
  "sscanf_u s =
     (case dropWhile isspace s of
        [] \<Rightarrow> ScanEOF
      | c # cs \<Rightarrow>
          (let neg = (c = CHR ''-'');
               body = (if c = CHR ''-'' \<or> c = CHR ''+'' then cs else c # cs);
               ds = takeWhile isdigit body
           in if ds = [] then ScanNoMatch
              else Scanned (if neg then - of_nat (dec_value ds) else of_nat (dec_value ds))))"

subsection \<open>\<open>receive_command\<close>\<close>

datatype cmd_result =
    PacketTooLong   \<comment> \<open>line 165: diagnostic and return\<close>
  | ParseFailed     \<comment> \<open>line 177: \<open>parse_packet\<close> returned \<open>fail\<close>\<close>
  | ScanFailed      \<comment> \<open>an \<open>AbortIfNot(sscanf(...), )\<close> returned\<close>
  | SystemReset     \<comment> \<open>\<open>give_up()\<close> was called\<close>
  | Handled         \<comment> \<open>the loop over the pairs ran to its end\<close>

text \<open>
  One iteration of the loop of lines 179-230 on the key and value strings of one pair.
  \<open>micros_to_ticks\<close> (from \<open>time_util.h\<close>) is a parameter. \<open>uninit\<close> is the indeterminate
  content of the local \<open>threshold\<close>, which is declared without initialiser and stays as it is
  when \<open>sscanf\<close> returns \<open>EOF\<close> (non-zero, so \<open>AbortIfNot\<close> lets it pass).
\<close>

definition apply_pair ::
  "(uint32_t \<Rightarrow> tick_t) \<Rightarrow> uint32_t \<Rightarrow> string \<Rightarrow> string \<Rightarrow> fw_state \<Rightarrow> cmd_result \<times> fw_state" where
  "apply_pair micros_to_ticks uninit k v st =
     (if k = ''threshold'' then
        (case sscanf_u v of
           ScanNoMatch \<Rightarrow> (ScanFailed, st)
         | ScanEOF \<Rightarrow>
             (Handled, st\<lparr>params := (params st)\<lparr>ping_threshold := uninit\<rparr>, sync := False\<rparr>)
         | Scanned threshold \<Rightarrow>
             (Handled, st\<lparr>params := (params st)\<lparr>ping_threshold := threshold\<rparr>, sync := False\<rparr>))
      else if k = ''filter'' then
        (case sscanf_u v of
           ScanNoMatch \<Rightarrow> (ScanFailed, st)
         | ScanEOF \<Rightarrow> (Handled, st\<lparr>params := (params st)\<lparr>filter_on := False\<rparr>\<rparr>)
         | Scanned debug \<Rightarrow> (Handled, st\<lparr>params := (params st)\<lparr>filter_on := (debug \<noteq> 0)\<rparr>\<rparr>))
      else if k = ''debug'' then
        (case sscanf_u v of
           ScanNoMatch \<Rightarrow> (ScanFailed, st)
         | ScanEOF \<Rightarrow> (Handled, st\<lparr>debug_stream := False\<rparr>)
         | Scanned debug \<Rightarrow> (Handled, st\<lparr>debug_stream := (debug \<noteq> 0)\<rparr>))
      else if k = ''pre_ping_duration_us'' then
        (case sscanf_u v of
           ScanNoMatch \<Rightarrow> (ScanFailed, st)
         | ScanEOF \<Rightarrow>
             (Handled, st\<lparr>params := (params st)\<lparr>pre_ping_duration := micros_to_ticks 0\<rparr>\<rparr>)
         | Scanned duration \<Rightarrow>
             (Handled, st\<lparr>params := (params st)\<lparr>pre_ping_duration := micros_to_ticks duration\<rparr>\<rparr>))
      else if k = ''post_ping_duration_us'' then
        (case sscanf_u v of
           ScanNoMatch \<Rightarrow> (ScanFailed, st)
         | ScanEOF \<Rightarrow>
             (Handled, st\<lparr>params := (params st)\<lparr>post_ping_duration := micros_to_ticks 0\<rparr>\<rparr>)
         | Scanned duration \<Rightarrow>
             (Handled, st\<lparr>params := (params st)\<lparr>post_ping_duration := micros_to_ticks duration\<rparr>\<rparr>))
      else if k = ''reset'' then (SystemReset, st)
      else (Handled, st))"

fun apply_pairs ::
  "(uint32_t \<Rightarrow> tick_t) \<Rightarrow> uint32_t \<Rightarrow> char list \<Rightarrow> KeyValuePair list \<Rightarrow> fw_state
     \<Rightarrow> cmd_result \<times> fw_state" where
  "apply_pairs micros_to_ticks uninit data [] st = (Handled, st)"
| "apply_pairs micros_to_ticks uninit data (p # ps) st =
     (case apply_pair micros_to_ticks uninit (cstr data (key p)) (cstr data (val p)) st of
        (Handled, st') \<Rightarrow> apply_pairs micros_to_ticks uninit data ps st'
      | (r, st') \<Rightarrow> (r, st'))"

text \<open>
  \<open>receive_command\<close> on the payload of one datagram (\<open>p->len\<close> is its length). The local
  buffer \<open>data\<close> has 1024 bytes; the bytes after the terminator written at \<open>data[p->len]\<close>
  are never read, since \<open>parse_packet\<close> is given \<open>p->len + 1\<close> as length.
\<close>

definition receive_command ::
  "(uint32_t \<Rightarrow> tick_t) \<Rightarrow> uint32_t \<Rightarrow> char list \<Rightarrow> fw_state \<Rightarrow> cmd_result \<times> fw_state" where
  "receive_command micros_to_ticks uninit payload st =
     (if length payload > 1024 - 1 then (PacketTooLong, st)
      else
        (case parse_packet (payload @ [NUL]) (length payload + 1) 10 of
           None \<Rightarrow> (ParseFailed, st)
         | Some (data, pairs) \<Rightarrow> apply_pairs micros_to_ticks uninit data pairs st))"


subsection \<open>Constants of \<open>main_bin.c\<close> and \<open>system_params.h\<close>\<close>

text \<open>
  \<open>main_bin.c\<close> defines \<open>MAX_SAMPLES\<close> as the token sequence \<open>45000 * 2200\<close>; every use in
  \<open>go\<close> (\<open>num_samples > MAX_SAMPLES\<close>, \<open>MAX_SAMPLES - (MAX_SAMPLES % ...)\<close>,
  \<open>MAX_SAMPLES * 2\<close>) expands to the same product. The definition comes after the
  inclusion of \<open>system_params.h\<close>, which defines the same name as
  \<open>(SAMPLING_FREQUENCY/1000 * 2200)\<close>; the later definition is the one in force in \<open>go\<close>,
  the earlier one is kept here as \<open>MAX_SAMPLES_system_params\<close>. \<open>correlations\<close> is
  declared with 50000 entries.
\<close>

definition MAX_SAMPLES :: nat where
  "MAX_SAMPLES = 45000 * 2200"

definition SAMPLING_FREQUENCY :: nat where
  "SAMPLING_FREQUENCY = 5000000"

definition MAX_SAMPLES_system_params :: nat where
  "MAX_SAMPLES_system_params = SAMPLING_FREQUENCY div 1000 * 2200"

definition correlations_entries :: nat where
  "correlations_entries = 50000"

definition ARM_CLK_PLL :: nat where
  "ARM_CLK_PLL = 666667000"

definition CPU_CLOCK_HZ :: nat where
  "CPU_CLOCK_HZ = ARM_CLK_PLL div 2"

subsection \<open>Collaborators of the scheduler\<close>

text \<open>
  \<open>FPGA_CLK\<close> and the tick conversions come from headers outside \<open>main_bin.c\<close>; they are
  the fields of a configuration. \<open>ticks_to_ms\<close> gives the value after conversion to
  \<open>int32_t\<close>.
\<close>

record config =
  FPGA_CLK :: uint32_t
  ms_to_ticks :: "nat \<Rightarrow> tick_t"
  ticks_to_ms :: "tick_t \<Rightarrow> uint32_t"
  micros_to_ticks :: "uint32_t \<Rightarrow> tick_t"

type_synonym correlation_result_t = "int list"

text \<open>
  The calls that one iteration of the loop of \<open>go\<close> makes to the DMA, the DSP routines and
  the sockets, in order, with the arguments the properties below are about:
  \<open>AcquireSync samples_to_take sampling_frequency\<close>;
  \<open>SilentRequest msg\<close> is \<open>send_udp(&silent_request_socket, msg, 8)\<close>;
  \<open>Record\<close>, \<open>Normalize\<close>, \<open>Filter\<close> and \<open>Truncate\<close> carry \<open>num_samples\<close>;
  \<open>CrossCorrelate start_index ping_length capacity\<close>;
  \<open>SendResult\<close> goes to the result socket, \<open>SendXcorr num_correlations\<close> to the
  correlation-stream socket, and \<open>SendData first length\<close> sends \<open>length\<close> frames of
  \<open>samples\<close> from index \<open>first\<close> on the data-stream socket.
\<close>

datatype event =
    AcquireSync uint32_t uint32_t
  | SilentRequest "8 word list"
  | Record uint32_t
  | Normalize uint32_t
  | Filter uint32_t
  | Truncate uint32_t
  | CrossCorrelate uint32_t uint32_t nat
  | SendResult correlation_result_t
  | SendXcorr nat
  | SendData uint32_t uint32_t

text \<open>
  How an iteration ends: \<open>NextCycle\<close> is the end of the loop body or a \<open>continue\<close>;
  \<open>GoFailed\<close> is an \<open>AbortIfNot(..., fail)\<close> of \<open>go\<close>; \<open>SystemRebooted\<close> is \<open>give_up()\<close>
  called by the command handler; \<open>OutOfInput\<close> means that a loop of the iteration was still
  running when the inputs below were used up.
\<close>

datatype cycle_end = NextCycle | GoFailed | SystemRebooted | OutOfInput

datatype 'a res = Go 'a | Stop cycle_end fw_state

text \<open>
  What the environment does during one iteration. One \<open>sync_attempt\<close> per call of
  \<open>acquire_sync\<close>: its result, the values it stores to \<open>found\<close> and \<open>previous_ping_tick\<close>,
  and the datagrams handled by the \<open>dispatch_network_stack\<close> call of line 397.
  \<open>clock\<close> lists the successive readings of \<open>get_system_time\<close> (the readings that only
  feed \<open>dbprintf\<close>, lines 463, 467, 511 and 514, are left out). \<open>truncate_out\<close> and
  \<open>cross_correlate_out\<close> are \<open>None\<close> when the routine returns \<open>fail\<close>, else its outputs
  \<open>(located, start_index, end_index)\<close> and \<open>(num_correlations, result)\<close>; \<open>size_t\<close> is
  32 bits wide on the target.
\<close>

record sync_attempt =
  as_ok :: bool
  as_found :: bool
  as_tick :: tick_t
  as_inbox :: "char list list"

record cycle_input =
  inbox :: "char list list"
  uninit :: uint32_t
  adc_samples_per_packet :: uint32_t
  sync_attempts :: "sync_attempt list"
  clock :: "tick_t list"
  silent_sent :: bool
  record_ok :: bool
  normalize_ok :: bool
  filter_ok :: bool
  truncate_out :: "(bool \<times> uint32_t \<times> uint32_t) option"
  cross_correlate_out :: "(nat \<times> correlation_result_t) option"
  send_result_ok :: bool
  send_xcorr_ok :: bool
  send_data_ok :: bool

subsection \<open>The scheduler loop of \<open>go\<close>\<close>

text \<open>
  Modelled from the spec: \<open>dispatch_network_stack\<close> belongs to the network stack, which is
  not part of the sources at hand. The spec (5) has it deliver the received datagrams by
  invoking the command handler from the scheduler's own call, never preemptively: each
  pending datagram is handed to \<open>receive_command\<close>, which \<open>go\<close> binds to the command
  socket at line 317. A \<open>reset\<close> command does not return.
\<close>

fun dispatch_network_stack ::
  "(uint32_t \<Rightarrow> tick_t) \<Rightarrow> uint32_t \<Rightarrow> char list list \<Rightarrow> fw_state \<Rightarrow> fw_state res" where
  "dispatch_network_stack m u [] st = Go st"
| "dispatch_network_stack m u (p # ps) st =
     (case receive_command m u p st of
        (SystemReset, st') \<Rightarrow> Stop SystemRebooted st'
      | (_, st') \<Rightarrow> dispatch_network_stack m u ps st')"

text \<open>Line 362. A zero divisor traps in C; HOL's \<open>div\<close> gives 0 there.\<close>

definition sampling_frequency :: "uint32_t \<Rightarrow> HydroZynqParams \<Rightarrow> uint32_t" where
  "sampling_frequency fpga p = fpga div (sample_clk_div p * 2)"

text \<open>
  \<open>sample_duration_ms / 1000.0 * sampling_frequency\<close>, converted to \<open>uint32_t\<close>. The C
  expression is evaluated in \<open>double\<close>; the definition takes the exact quotient. At
  5000000 samples per second both give 10500000 for 2100 ms and 1500000 for 300 ms.
\<close>

definition duration_samples :: "nat \<Rightarrow> uint32_t \<Rightarrow> uint32_t" where
  "duration_samples ms fs = of_nat (ms * unat fs div 1000)"

text \<open>Lines 443-451, in 32-bit unsigned arithmetic.\<close>

definition round_up_to_packet :: "uint32_t \<Rightarrow> uint32_t \<Rightarrow> uint32_t" where
  "round_up_to_packet n spp = (if n mod spp \<noteq> 0 then n + (spp - n mod spp) else n)"

definition clamp_to_buffer :: "uint32_t \<Rightarrow> uint32_t \<Rightarrow> uint32_t" where
  "clamp_to_buffer n adc_spp =
     (if n > of_nat MAX_SAMPLES then of_nat MAX_SAMPLES - of_nat MAX_SAMPLES mod adc_spp else n)"

definition capture_length :: "bool \<Rightarrow> uint32_t \<Rightarrow> uint32_t \<Rightarrow> uint32_t \<Rightarrow> uint32_t" where
  "capture_length dbg fs spp adc_spp =
     clamp_to_buffer (round_up_to_packet (duration_samples (if dbg then 2100 else 300) fs) spp) adc_spp"

text \<open>
  The loop of lines 377-403. The guard \<open>!found && !debug_stream\<close> holds on entry, so the
  body runs first; \<open>samples_to_take\<close> is passed to \<open>acquire_sync\<close> as computed. With no
  attempt left in the input, the call of \<open>acquire_sync\<close> is listed and has not returned.
\<close>

fun sync_loop ::
  "config \<Rightarrow> uint32_t \<Rightarrow> uint32_t \<Rightarrow> uint32_t \<Rightarrow> sync_attempt list \<Rightarrow> fw_state
     \<Rightarrow> event list \<times> (bool \<times> fw_state) res" where
  "sync_loop cfg u n fs [] st = ([AcquireSync n fs], Stop OutOfInput st)"
| "sync_loop cfg u n fs (a # as) st =
     (if \<not> as_ok a then ([AcquireSync n fs], Stop GoFailed st)
      else
        (case dispatch_network_stack (micros_to_ticks cfg) u (as_inbox a)
                (st\<lparr>previous_ping_tick := as_tick a\<rparr>) of
           Stop e st' \<Rightarrow> ([AcquireSync n fs], Stop e st')
         | Go st' \<Rightarrow>
             if \<not> as_found a \<and> \<not> debug_stream st' then
               (case sync_loop cfg u n fs as st' of (evs, r) \<Rightarrow> (AcquireSync n fs # evs, r))
             else ([AcquireSync n fs], Go (as_found a, st'))))"

text \<open>Lines 372-410.\<close>

definition acquire_phase ::
  "config \<Rightarrow> cycle_input \<Rightarrow> uint32_t \<Rightarrow> fw_state \<Rightarrow> event list \<times> fw_state res" where
  "acquire_phase cfg inp fs st =
     (if \<not> sync st \<and> \<not> debug_stream st then
        (case sync_loop cfg (uninit inp) (duration_samples 2100 fs) fs (sync_attempts inp) st of
           (evs, Stop e st') \<Rightarrow> (evs, Stop e st')
         | (evs, Go (found, st')) \<Rightarrow> (evs, Go (if found then st'\<lparr>sync := True\<rparr> else st')))
      else ([], Go st))"

text \<open>Lines 362-410: the iteration up to the first test of \<open>debug_stream\<close> at line 416.\<close>

definition cycle_front ::
  "config \<Rightarrow> cycle_input \<Rightarrow> fw_state \<Rightarrow> event list \<times> fw_state res" where
  "cycle_front cfg inp st =
     (case dispatch_network_stack (micros_to_ticks cfg) (uninit inp) (inbox inp) st of
        Stop e st' \<Rightarrow> ([], Stop e st')
      | Go st' \<Rightarrow> acquire_phase cfg inp (sampling_frequency (FPGA_CLK cfg) (params st)) st')"

text \<open>The loops of lines 419-422 and of line 435, one clock reading per test.\<close>

fun fast_forward :: "tick_t \<Rightarrow> tick_t \<Rightarrow> tick_t list \<Rightarrow> tick_t \<Rightarrow> (tick_t list \<times> tick_t) option" where
  "fast_forward ms50 ms2000 [] next_ping_tick = None"
| "fast_forward ms50 ms2000 (now # clk) next_ping_tick =
     (if now > next_ping_tick - ms50
      then fast_forward ms50 ms2000 clk (next_ping_tick + ms2000)
      else Some (clk, next_ping_tick))"

fun busy_wait :: "tick_t \<Rightarrow> tick_t list \<Rightarrow> tick_t list option" where
  "busy_wait target [] = None"
| "busy_wait target (now # clk) = (if now < target then busy_wait target clk else Some clk)"

text \<open>
  \<open>request_thruster_shutdown\<close>: the two \<open>int32_t\<close> are copied into \<open>msg\<close> in the byte order
  of the target, which is little-endian; \<open>now\<close> is the reading of \<open>get_system_time\<close> at
  line 247.
\<close>

definition le_bytes32 :: "uint32_t \<Rightarrow> 8 word list" where
  "le_bytes32 w = map (\<lambda>i. ucast (drop_bit (8 * i) w)) [0, 1, 2, 3]"

definition request_msg :: "config \<Rightarrow> tick_t \<Rightarrow> tick_t \<Rightarrow> tick_t \<Rightarrow> 8 word list" where
  "request_msg cfg now future_ticks duration =
     le_bytes32 (ticks_to_ms cfg (future_ticks - now)) @ le_bytes32 (ticks_to_ms cfg duration)"

text \<open>Lines 416-436.\<close>

definition predict_phase ::
  "config \<Rightarrow> cycle_input \<Rightarrow> fw_state \<Rightarrow> event list \<times> tick_t list res" where
  "predict_phase cfg inp st =
     (if \<not> debug_stream st then
        (case fast_forward (ms_to_ticks cfg 50) (ms_to_ticks cfg 2000) (clock inp)
                (previous_ping_tick st) of
           None \<Rightarrow> ([], Stop OutOfInput st)
         | Some (clk1, next_ping_tick) \<Rightarrow>
             (case clk1 of
                [] \<Rightarrow> ([], Stop OutOfInput st)
              | now # clk2 \<Rightarrow>
                  (let msg = request_msg cfg now (next_ping_tick - ms_to_ticks cfg 50)
                               (ms_to_ticks cfg 100)
                   in if \<not> silent_sent inp then ([SilentRequest msg], Stop GoFailed st)
                      else
                        (case busy_wait (next_ping_tick - ms_to_ticks cfg 50) clk2 of
                           None \<Rightarrow> ([SilentRequest msg], Stop OutOfInput st)
                         | Some clk3 \<Rightarrow> ([SilentRequest msg], Go clk3)))))
      else ([], Go (clock inp)))"

text \<open>Lines 441-468.\<close>

definition capture_phase ::
  "cycle_input \<Rightarrow> uint32_t \<Rightarrow> fw_state \<Rightarrow> tick_t list \<Rightarrow> event list \<times> (uint32_t \<times> tick_t) res" where
  "capture_phase inp fs st clk =
     (let num_samples = capture_length (debug_stream st) fs (samples_per_packet (params st))
                          (adc_samples_per_packet inp)
      in case clk of
           [] \<Rightarrow> ([], Stop OutOfInput st)
         | sample_start_tick # _ \<Rightarrow>
             if \<not> record_ok inp then ([Record num_samples], Stop GoFailed st)
             else if \<not> normalize_ok inp then
               ([Record num_samples, Normalize num_samples], Stop GoFailed st)
             else if filter_on (params st) then
               ([Record num_samples, Normalize num_samples, Filter num_samples],
                if filter_ok inp then Go (num_samples, sample_start_tick) else Stop GoFailed st)
             else ([Record num_samples, Normalize num_samples], Go (num_samples, sample_start_tick)))"

text \<open>Lines 474-478.\<close>

definition debug_dump :: "cycle_input \<Rightarrow> fw_state \<Rightarrow> uint32_t \<Rightarrow> event list \<times> cycle_end \<times> fw_state" where
  "debug_dump inp st num_samples =
     ([SendData 0 num_samples], if send_data_ok inp then NextCycle else GoFailed, st)"

text \<open>
  Line 494: \<open>start_index * (CPU_CLOCK_HZ / sampling_frequency)\<close>, an unsigned 32-bit
  product with an integer quotient, widened to \<open>tick_t\<close>.
\<close>

definition ping_offset :: "uint32_t \<Rightarrow> uint32_t \<Rightarrow> tick_t" where
  "ping_offset start_index fs = ucast (start_index * (of_nat CPU_CLOCK_HZ div fs))"

text \<open>Lines 483-527.\<close>

definition process_phase ::
  "cycle_input \<Rightarrow> uint32_t \<Rightarrow> fw_state \<Rightarrow> uint32_t \<Rightarrow> tick_t \<Rightarrow> event list \<times> cycle_end \<times> fw_state" where
  "process_phase inp fs st num_samples sample_start_tick =
     (case truncate_out inp of
        None \<Rightarrow> ([Truncate num_samples], GoFailed, st)
      | Some (located, start_index, end_index) \<Rightarrow>
          if \<not> located then ([Truncate num_samples], NextCycle, st\<lparr>sync := False\<rparr>)
          else
            (let st' = st\<lparr>sync := True,
                          previous_ping_tick := sample_start_tick + ping_offset start_index fs\<rparr>;
                 ping_length = end_index - start_index;
                 xc = CrossCorrelate start_index ping_length (MAX_SAMPLES * 2)
             in if \<not> end_index > start_index then ([Truncate num_samples], GoFailed, st')
                else
                  (case cross_correlate_out inp of
                     None \<Rightarrow> ([Truncate num_samples, xc], GoFailed, st')
                   | Some (num_correlations, result) \<Rightarrow>
                       if \<not> send_result_ok inp then
                         ([Truncate num_samples, xc, SendResult result], GoFailed, st')
                       else if \<not> send_xcorr_ok inp then
                         ([Truncate num_samples, xc, SendResult result,
                           SendXcorr num_correlations], GoFailed, st')
                       else
                         ([Truncate num_samples, xc, SendResult result,
                           SendXcorr num_correlations, SendData start_index ping_length],
                          if send_data_ok inp then NextCycle else GoFailed, st'))))"

text \<open>One iteration of \<open>while (1)\<close>.\<close>

definition cycle :: "config \<Rightarrow> cycle_input \<Rightarrow> fw_state \<Rightarrow> event list \<times> cycle_end \<times> fw_state" where
  "cycle cfg inp st =
     (let fs = sampling_frequency (FPGA_CLK cfg) (params st)
      in case cycle_front cfg inp st of
           (ev1, Stop e st') \<Rightarrow> (ev1, e, st')
         | (ev1, Go st1) \<Rightarrow>
             (case predict_phase cfg inp st1 of
                (ev2, Stop e st') \<Rightarrow> (ev1 @ ev2, e, st')
              | (ev2, Go clk) \<Rightarrow>
                  (case capture_phase inp fs st1 clk of
                     (ev3, Stop e st') \<Rightarrow> (ev1 @ ev2 @ ev3, e, st')
                   | (ev3, Go (num_samples, sample_start_tick)) \<Rightarrow>
                       (case (if debug_stream st1 then debug_dump inp st1 num_samples
                              else process_phase inp fs st1 num_samples sample_start_tick) of
                          (ev4, e, st') \<Rightarrow> (ev1 @ ev2 @ ev3 @ ev4, e, st')))))"

subsection \<open>Acquisition lengths outside the loop\<close>

text \<open>
  Line 340: before the loop, \<open>go\<close> records one packet,
  \<open>record(&dma, samples, adc.regs->samples_per_packet, adc)\<close>.
\<close>

definition startup_record_length :: "uint32_t \<Rightarrow> uint32_t" where
  "startup_record_length adc_spp = adc_spp"

text \<open>
  Modelled from the spec: \<open>acquire_sync\<close> is not part of the sources at hand. The spec has
  \<open>samples_per_packet\<close> as the granularity of the DMA, with all acquisition lengths rounded
  up to a multiple of it (3, glossary), and \<open>record\<close> take whole packets only (4.2). So the
  acquisition inside \<open>acquire_sync\<close> asks for the count \<open>go\<close> passes, rounded up to the
  next multiple of \<open>samples_per_packet\<close>.
\<close>

definition acquire_sync_dma_length :: "uint32_t \<Rightarrow> uint32_t \<Rightarrow> nat" where
  "acquire_sync_dma_length samples_to_take spp =
     (unat samples_to_take + unat spp - 1) div unat spp * unat spp"

subsection \<open>Tick conversions\<close>

text \<open>
  Modelled from the spec: \<open>time_util.h\<close> is not part of the sources at hand. The spec (4.1)
  has \<open>ms_to_ticks\<close> and \<open>ticks_to_ms\<close> convert between milliseconds and ticks at
  \<open>CPU_CLOCK_HZ\<close> ticks per second; the result is cut to a whole number of ticks or of
  milliseconds, and \<open>ticks_to_ms\<close> is given with the conversion to \<open>int32_t\<close> of line 247.
  100 ms are 33333350 ticks exactly.
\<close>

definition time_util_ms_to_ticks :: "nat \<Rightarrow> tick_t" where
  "time_util_ms_to_ticks ms = of_nat (ms * CPU_CLOCK_HZ div 1000)"

definition time_util_ticks_to_ms :: "tick_t \<Rightarrow> uint32_t" where
  "time_util_ticks_to_ms t = of_nat (unat t * 1000 div CPU_CLOCK_HZ)"

subsection \<open>Start-up state and example inputs\<close>

text \<open>
  The state \<open>go\<close> sets up before the loop (lines 345-359). \<open>clk_div\<close> and \<open>spp\<close> are
  the ADC registers \<open>clk_div\<close> and \<open>samples_per_packet\<close>, \<open>threshold\<close> is
  \<open>INITIAL_ADC_THRESHOLD\<close>, \<open>now\<close> the reading of \<open>get_system_time\<close> at line 359.
\<close>

definition startup_state ::
  "(uint32_t \<Rightarrow> tick_t) \<Rightarrow> uint32_t \<Rightarrow> uint32_t \<Rightarrow> uint32_t \<Rightarrow> tick_t \<Rightarrow> fw_state" where
  "startup_state m clk_div spp threshold now =
     \<lparr>params = \<lparr>sample_clk_div = clk_div, samples_per_packet = spp,
                 ping_threshold = threshold,
                 pre_ping_duration = m 100,
                 post_ping_duration = m 50,
                 filter_on = False\<rparr>,
      sync = False, debug_stream = False, previous_ping_tick = now\<rparr>"

text \<open>
  Modelled from the spec: \<open>time_util.h\<close> and the value of \<open>FPGA_CLK\<close> are not part of the
  sources at hand. The spec has the conversions assume \<open>CPU_CLOCK_HZ\<close> ticks per second and
  gives a 100 MHz FPGA clock, 128 samples per packet and the initial threshold 1500. The
  example configuration below instantiates the parameters at concrete inputs only.
\<close>

definition sample_micros_to_ticks :: "uint32_t \<Rightarrow> tick_t" where
  "sample_micros_to_ticks us = of_nat (unat us * CPU_CLOCK_HZ div 1000000)"

definition sample_config :: config where
  "sample_config = \<lparr>FPGA_CLK = 100000000,
     ms_to_ticks = (\<lambda>ms. of_nat (ms * CPU_CLOCK_HZ div 1000)),
     ticks_to_ms = (\<lambda>t. of_nat (unat t * 1000 div CPU_CLOCK_HZ)),
     micros_to_ticks = sample_micros_to_ticks\<rparr>"

definition sample_state :: fw_state where
  "sample_state = startup_state sample_micros_to_ticks 10 128 1500 0"

text \<open>
  An iteration in which the first \<open>acquire_sync\<close> finds a ping at tick 1000000000, the
  clock stands at 1700000000 when the prediction starts, and \<open>truncate\<close> locates the ping at
  sample 250000.
\<close>

definition sample_input :: cycle_input where
  "sample_input = \<lparr>inbox = [], uninit = 0, adc_samples_per_packet = 128,
     sync_attempts = [\<lparr>as_ok = True, as_found = True, as_tick = 1000000000, as_inbox = []\<rparr>],
     clock = [1700000000, 1700001000, 1700002000, 1700003000, 2000000000, 2316667325,
              2316668000],
     silent_sent = True, record_ok = True, normalize_ok = True, filter_ok = True,
     truncate_out = Some (True, 250000, 250768),
     cross_correlate_out = Some (1000, [30000, 60000, 90000]),
     send_result_ok = True, send_xcorr_ok = True, send_data_ok = True\<rparr>"

text \<open>
  Variants of the example: \<open>truncate\<close> does not locate the ping; a \<open>debug:1\<close> or a
  \<open>debug:0\<close> datagram is pending at the top of the iteration; the start-up state with
  \<open>debug_stream\<close> set.
\<close>

definition lost_input :: cycle_input where
  "lost_input = sample_input\<lparr>truncate_out := Some (False, 0, 0)\<rparr>"

definition debug_on_input :: cycle_input where
  "debug_on_input = sample_input\<lparr>inbox := [''debug:1'']\<rparr>"

definition debug_off_input :: cycle_input where
  "debug_off_input = sample_input\<lparr>inbox := [''debug:0'']\<rparr>"

definition sample_debug_state :: fw_state where
  "sample_debug_state = sample_state\<lparr>debug_stream := True\<rparr>"

subsection \<open>Notions used to state the properties\<close>

text \<open>The decimal notation of a number, as a host writes it into a command.\<close>

definition digit_char :: "nat \<Rightarrow> char" where
  "digit_char d = ''0123456789'' ! d"

function decimal :: "nat \<Rightarrow> string" where
  "decimal n =
     (if n < 10 then [digit_char n] else decimal (n div 10) @ [digit_char (n mod 10)])"
  by pat_completeness auto
termination
  by (relation "measure id") auto

text \<open>
  The number of ticks between the start of an acquisition and its sample \<open>idx\<close> at \<open>fs\<close>
  samples per second, and the length of one sample period in ticks, as real numbers.
\<close>

definition ideal_offset :: "nat \<Rightarrow> nat \<Rightarrow> real" where
  "ideal_offset idx fs = real idx * real CPU_CLOCK_HZ / real fs"

definition sample_period :: "nat \<Rightarrow> real" where
  "sample_period fs = real CPU_CLOCK_HZ / real fs"

text \<open>
  The \<open>int32\<close> that a little-endian host reads from four bytes of a datagram.
\<close>

definition int32_le :: "8 word list \<Rightarrow> uint32_t" where
  "int32_le bs = foldr (\<lambda>b acc. ucast b + 256 * acc) bs 0"

text \<open>Classes of calls: the silent-running request, and the three transmissions to the host.\<close>

definition is_silent_request :: "event \<Rightarrow> bool" where
  "is_silent_request e = (case e of SilentRequest _ \<Rightarrow> True | _ \<Rightarrow> False)"

definition is_transmission :: "event \<Rightarrow> bool" where
  "is_transmission e =
     (case e of SendResult _ \<Rightarrow> True | SendXcorr _ \<Rightarrow> True | SendData _ _ \<Rightarrow> True | _ \<Rightarrow> False)"

section \<open>The command handler\<close>

subsection \<open>What \<open>parse_packet\<close> returns\<close>

text \<open>
  The first loop stops at the first comma or NUL of the buffer: after the comma has been
  overwritten with NUL, the test of line 129 reads that NUL and leaves the loop. So
  \<open>parse_packet\<close> returns one pair, made of the first token of the packet.
\<close>

lemma scan_tokens_skip:
  assumes "\<forall>c\<in>set pre. c \<noteq> CHR '','' \<and> c \<noteq> NUL"
    and "t = CHR '','' \<or> t = NUL"
    and "length pre < len" and "length keys < max_pairs" and "j \<le> length pre"
  shows "scan_tokens len max_pairs (pre @ t # rest) j keys ls = (pre @ NUL # rest, keys @ [ls])"
  using assms(5)
proof (induction "length pre - j" arbitrary: j)
  case 0
  then have j: "j = length pre" by simp
  show ?case
    using assms(2-4) by (subst scan_tokens.simps) (auto simp: j nth_append Let_def)
next
  case (Suc d)
  then have lt: "j < length pre" and d: "d = length pre - (j + 1)" and le: "j + 1 \<le> length pre"
    by simp_all
  have nth: "(pre @ t # rest) ! j = pre ! j" using lt by (simp add: nth_append)
  have ok: "pre ! j \<noteq> CHR '',''" "pre ! j \<noteq> NUL" using assms(1) lt by auto
  show ?case
    using Suc.hyps(1) [OF d le] lt assms(3,4) ok
    by (subst scan_tokens.simps) (simp add: nth Let_def)
qed

lemma first_colon_split:
  "CHR '':'' \<notin> set k \<Longrightarrow> first_colon (k @ CHR '':'' # v) = Some (length k)"
  by (induction k) auto

lemma first_colon_none: "CHR '':'' \<notin> set k \<Longrightarrow> first_colon k = None"
  by (induction k) auto

lemma takeWhile_NUL:
  "NUL \<notin> set s \<Longrightarrow> takeWhile (\<lambda>c. c \<noteq> NUL) (s @ NUL # rest) = s"
  by (induction s) auto

lemma cstr_prefix:
  "NUL \<notin> set s \<Longrightarrow> cstr (s @ NUL # rest) 0 = s"
  by (simp add: cstr_def takeWhile_NUL)

lemma cstr_at:
  "NUL \<notin> set s \<Longrightarrow> length pre = n \<Longrightarrow> cstr (pre @ s @ NUL # rest) n = s"
  by (auto simp add: cstr_def takeWhile_NUL)


lemma parse_packet_first:
  assumes "\<forall>c\<in>set tok. c \<noteq> CHR '','' \<and> c \<noteq> NUL"
    and "t = CHR '','' \<or> t = NUL"
    and "length tok < len" and "0 < max_pairs"
  shows "parse_packet (tok @ t # rest) len max_pairs = split_values (tok @ NUL # rest) [0]"
  using scan_tokens_skip [OF assms(1,2,3), of "[]" max_pairs 0 rest 0] assms(4)
  by (simp add: parse_packet_def)

lemma split_values_colon:
  assumes "CHR '':'' \<notin> set k" and "NUL \<notin> set k" and "NUL \<notin> set v"
  shows "split_values ((k @ CHR '':'' # v) @ NUL # rest) [0] =
           Some (k @ NUL # v @ NUL # rest, [\<lparr>key = 0, val = length k + 1\<rparr>])"
proof -
  have "cstr ((k @ CHR '':'' # v) @ NUL # rest) 0 = k @ CHR '':'' # v"
    using assms(2,3) by (intro cstr_prefix) auto
  then show ?thesis
    using assms(1) by (simp add: first_colon_split list_update_append)
qed

lemma split_values_no_colon:
  assumes "CHR '':'' \<notin> set tok" and "NUL \<notin> set tok"
  shows "split_values (tok @ NUL # rest) [0] = None"
  using assms by (simp add: cstr_prefix first_colon_none)

lemma apply_pairs_single:
  "apply_pairs m u data [p] st = apply_pair m u (cstr data (key p)) (cstr data (val p)) st"
  by (cases "apply_pair m u (cstr data (key p)) (cstr data (val p)) st")
     (auto split: cmd_result.splits)

lemma receive_command_first_token:
  assumes chars: "\<forall>c\<in>set (k @ v). c \<noteq> CHR '','' \<and> c \<noteq> NUL"
    and colon: "CHR '':'' \<notin> set k"
    and tail: "tail = [] \<or> hd tail = CHR '',''"
    and len: "length (k @ CHR '':'' # v @ tail) \<le> 1023"
  shows "receive_command m u (k @ CHR '':'' # v @ tail) st = apply_pair m u k v st"
proof -
  let ?tok = "k @ CHR '':'' # v"
  obtain t rest where data: "(?tok @ tail) @ [NUL] = ?tok @ t # rest"
    and t: "t = CHR '','' \<or> t = NUL"
    using tail by (cases tail) auto
  have tokchars: "\<forall>c\<in>set ?tok. c \<noteq> CHR '','' \<and> c \<noteq> NUL"
    using chars by auto
  have nk: "NUL \<notin> set k" and nv: "NUL \<notin> set v" using chars by auto
  have lt: "length ?tok < length (?tok @ tail) + 1" by simp
  have "parse_packet ((?tok @ tail) @ [NUL]) (length (?tok @ tail) + 1) 10 =
          Some (k @ NUL # v @ NUL # rest, [\<lparr>key = 0, val = length k + 1\<rparr>])"
    unfolding data
    using parse_packet_first [OF tokchars t lt, of 10 rest] split_values_colon [OF colon nk nv, of rest]
    by simp
  moreover have "cstr (k @ NUL # v @ NUL # rest) 0 = k"
    using nk by (rule cstr_prefix)
  moreover have "cstr (k @ NUL # v @ NUL # rest) (length k + 1) = v"
    using cstr_at [OF nv, of "k @ [NUL]" "length k + 1" rest] by simp
  ultimately show ?thesis
    using len by (simp add: receive_command_def split: prod.splits cmd_result.splits)
qed

lemma receive_command_no_colon:
  assumes chars: "\<forall>c\<in>set tok. c \<noteq> CHR '','' \<and> c \<noteq> NUL \<and> c \<noteq> CHR '':''"
    and tail: "tail = [] \<or> hd tail = CHR '',''"
    and len: "length (tok @ tail) \<le> 1023"
  shows "receive_command m u (tok @ tail) st = (ParseFailed, st)"
proof -
  obtain t rest where data: "(tok @ tail) @ [NUL] = tok @ t # rest"
    and t: "t = CHR '','' \<or> t = NUL"
    using tail by (cases tail) auto
  have tokchars: "\<forall>c\<in>set tok. c \<noteq> CHR '','' \<and> c \<noteq> NUL"
    using chars by auto
  have nc: "CHR '':'' \<notin> set tok" and nn: "NUL \<notin> set tok" using chars by auto
  have lt: "length tok < length (tok @ tail) + 1" by simp
  have "parse_packet ((tok @ tail) @ [NUL]) (length (tok @ tail) + 1) 10 = None"
    unfolding data
    using parse_packet_first [OF tokchars t lt, of 10 rest] split_values_no_colon [OF nc nn, of rest]
    by simp
  then show ?thesis
    using len by (simp add: receive_command_def)
qed

subsection \<open>Decimal values and \<open>sscanf\<close>\<close>

declare decimal.simps [simp del]

lemma of_char_digit: "d < 10 \<Longrightarrow> (of_char (digit_char d) :: nat) = 48 + d"
proof -
  assume "d < 10"
  then have "d \<in> {0, 1, 2, 3, 4, 5, 6, 7, 8, 9}" by auto
  then show ?thesis by (auto simp: digit_char_def)
qed

lemma isdigit_digit: "d < 10 \<Longrightarrow> isdigit (digit_char d)"
  by (simp add: isdigit_def of_char_digit)

lemma decimal_digits: "c \<in> set (decimal n) \<Longrightarrow> isdigit c"
proof (induction n arbitrary: c rule: decimal.induct)
  case (1 n)
  show ?case
  proof (cases "n < 10")
    case True
    with "1.prems" show ?thesis by (subst (asm) decimal.simps) (simp add: isdigit_digit)
  next
    case False
    with "1.prems" have "c \<in> set (decimal (n div 10)) \<or> c = digit_char (n mod 10)"
      by (subst (asm) decimal.simps) auto
    then show ?thesis using "1.IH" [OF False] by (auto simp: isdigit_digit)
  qed
qed

lemma decimal_nonempty: "decimal n \<noteq> []"
  by (subst decimal.simps) simp

lemma dec_value_snoc: "dec_value (ds @ [c]) = dec_value ds * 10 + ((of_char c :: nat) - 48)"
  by (simp add: dec_value_def)

lemma dec_value_decimal: "dec_value (decimal n) = n"
proof (induction n rule: decimal.induct)
  case (1 n)
  show ?case
  proof (cases "n < 10")
    case True
    then show ?thesis by (subst decimal.simps) (simp add: dec_value_def of_char_digit)
  next
    case False
    then show ?thesis
      using "1.IH" by (subst decimal.simps) (simp add: dec_value_snoc of_char_digit)
  qed
qed

lemma length_decimal: "0 < k \<Longrightarrow> n < 10 ^ k \<Longrightarrow> length (decimal n) \<le> k"
proof (induction n arbitrary: k rule: decimal.induct)
  case (1 n)
  show ?case
  proof (cases "n < 10")
    case True
    with "1.prems" show ?thesis by (subst decimal.simps) simp
  next
    case False
    then obtain k' where k: "k = Suc k'" and k': "0 < k'"
      using "1.prems" by (cases k; cases "k - 1") auto
    have "n div 10 < 10 ^ k'" using "1.prems"(2) k by (simp add: less_mult_imp_div_less)
    then have "length (decimal (n div 10)) \<le> k'" using "1.IH" [OF False k'] by simp
    then show ?thesis using False k by (subst decimal.simps) simp
  qed
qed

lemma isdigit_plain:
  "isdigit c \<Longrightarrow> \<not> isspace c \<and> c \<noteq> CHR ''-'' \<and> c \<noteq> CHR ''+'' \<and> c \<noteq> CHR '','' \<and> c \<noteq> NUL \<and> c \<noteq> CHR '':''"
  by (auto simp: isdigit_def isspace_def)

lemma takeWhile_all: "\<forall>c\<in>set xs. P c \<Longrightarrow> takeWhile P xs = xs"
  by (induction xs) auto

lemma sscanf_u_digits:
  assumes "ds \<noteq> []" and "\<forall>c\<in>set ds. isdigit c"
  shows "sscanf_u ds = Scanned (of_nat (dec_value ds))"
proof -
  obtain c cs where ds: "ds = c # cs" using assms(1) by (cases ds) auto
  have c: "isdigit c" using assms(2) ds by simp
  have tw: "takeWhile isdigit (c # cs) = c # cs"
    using assms(2) ds by (intro takeWhile_all) simp
  have "dropWhile isspace ds = c # cs" using c isdigit_plain ds by simp
  then show ?thesis
    using isdigit_plain [OF c] by (simp add: sscanf_u_def Let_def ds tw del: takeWhile.simps)
qed

lemma sscanf_u_decimal: "sscanf_u (decimal n) = Scanned (of_nat n)"
  using sscanf_u_digits [of "decimal n"] decimal_nonempty decimal_digits
  by (simp add: dec_value_decimal)

lemma decimal_chars: "\<forall>c\<in>set (decimal v). c \<noteq> CHR '','' \<and> c \<noteq> NUL"
  using decimal_digits isdigit_plain by blast

subsection \<open>Results of the handler\<close>

lemma apply_pair_results:
  "fst (apply_pair m u k v st) \<noteq> PacketTooLong \<and> fst (apply_pair m u k v st) \<noteq> ParseFailed"
  by (simp add: apply_pair_def split: scan.splits)

lemma apply_pairs_results:
  "fst (apply_pairs m u data ps st) \<noteq> PacketTooLong \<and> fst (apply_pairs m u data ps st) \<noteq> ParseFailed"
proof (induction ps arbitrary: st)
  case Nil
  show ?case by simp
next
  case (Cons p ps)
  obtain r st' where r: "apply_pair m u (cstr data (key p)) (cstr data (val p)) st = (r, st')"
    by (cases "apply_pair m u (cstr data (key p)) (cstr data (val p)) st")
  with apply_pair_results [of m u "cstr data (key p)" "cstr data (val p)" st]
  have "r \<noteq> PacketTooLong" "r \<noteq> ParseFailed" by simp_all
  then show ?case using r Cons.IH [of st'] by (cases r) simp_all
qed

text \<open>
  A \<open>threshold\<close> token at the head of a packet sets \<open>ping_threshold\<close> and clears
  \<open>sync\<close>, and changes nothing else.
\<close>

lemma threshold_first_token:
  assumes "v < 2 ^ 32" and "tail = [] \<or> hd tail = CHR '',''" and "length tail \<le> 1000"
  shows "receive_command m u (''threshold:'' @ decimal v @ tail) st =
           (Handled, st\<lparr>params := (params st)\<lparr>ping_threshold := of_nat v\<rparr>, sync := False\<rparr>)"
proof -
  have "v < 10 ^ 10" using assms(1) by simp
  then have len: "length (decimal v) \<le> 10" by (intro length_decimal) simp_all
  have "receive_command m u (''threshold'' @ CHR '':'' # decimal v @ tail) st =
          apply_pair m u ''threshold'' (decimal v) st"
    using decimal_chars [of v] len assms(2,3) by (intro receive_command_first_token) auto
  then show ?thesis by (simp add: apply_pair_def sscanf_u_decimal)
qed

text \<open>
  C6. Claim: for every well-formed command packet containing a token \<open>threshold:v\<close>, the
  handler sets \<open>ping_threshold\<close> to \<open>v\<close> and clears the sync bit. In the packet
  \<open>filter:1,threshold:7\<close> the token follows another one: \<open>receive_command\<close> applies
  \<open>filter:1\<close> and returns, with \<open>ping_threshold\<close> and \<open>sync\<close> as they were.
\<close>

theorem threshold_after_first_token_ignored:
  "receive_command m u ''filter:1,threshold:7'' st =
     (Handled, st\<lparr>params := (params st)\<lparr>filter_on := True\<rparr>\<rparr>)"
  using receive_command_first_token [of "''filter''" "''1''" "'',threshold:7''" m u st]
  by (simp add: apply_pair_def sscanf_u_def isspace_def isdigit_def dec_value_def)

text \<open>
  C7 as stated fails at a payload of exactly 1024 bytes: it is discarded as over-length.
\<close>

theorem receive_command_1024_counterexample:
  "length (replicate 1024 (CHR ''a'')) \<le> 1024 \<and>
   receive_command sample_micros_to_ticks 0 (replicate 1024 (CHR ''a'')) sample_state
     = (PacketTooLong, sample_state)"
  by (simp add: receive_command_def)

text \<open>
  C7, amended. \<open>receive_command\<close> discards a payload as over-length, leaving the state as
  it is, exactly when its length exceeds 1023 bytes (the 1024-byte buffer keeps one byte for
  the terminator); every payload of at most 1023 bytes is handed to \<open>parse_packet\<close> and,
  when that succeeds, to the loop over the pairs.
\<close>

theorem receive_command_length_gate:
  "(fst (receive_command m u payload st) = PacketTooLong) = (1023 < length payload) \<and>
   (1023 < length payload \<longrightarrow> receive_command m u payload st = (PacketTooLong, st)) \<and>
   (length payload \<le> 1023 \<longrightarrow>
      receive_command m u payload st =
        (case parse_packet (payload @ [NUL]) (length payload + 1) 10 of
           None \<Rightarrow> (ParseFailed, st)
         | Some (data, pairs) \<Rightarrow> apply_pairs m u data pairs st))"
proof (cases "1023 < length payload")
  case True
  then show ?thesis by (simp add: receive_command_def)
next
  case False
  then have eq: "receive_command m u payload st =
        (case parse_packet (payload @ [NUL]) (length payload + 1) 10 of
           None \<Rightarrow> (ParseFailed, st)
         | Some (data, pairs) \<Rightarrow> apply_pairs m u data pairs st)"
    by (simp add: receive_command_def)
  have "fst (receive_command m u payload st) \<noteq> PacketTooLong"
    unfolding eq using apply_pairs_results
    by (auto split: option.splits prod.splits)
  then show ?thesis using False eq by simp
qed

theorem receive_command_length_gate_witness:
  "1023 < length (replicate 1024 (CHR ''a'')) \<and>
   receive_command sample_micros_to_ticks 0 (replicate 1024 (CHR ''a'')) sample_state
     = (PacketTooLong, sample_state) \<and>
   length ''debug:1'' \<le> 1023 \<and>
   fst (receive_command sample_micros_to_ticks 0 ''debug:1'' sample_state) \<noteq> PacketTooLong"
proof -
  have long: "receive_command sample_micros_to_ticks 0 (replicate 1024 (CHR ''a'')) sample_state
     = (PacketTooLong, sample_state)"
    using receive_command_length_gate
            [THEN conjunct2, THEN conjunct1,
             of "replicate 1024 (CHR ''a'')" sample_micros_to_ticks 0 sample_state]
    by simp
  have short: "fst (receive_command sample_micros_to_ticks 0 ''debug:1'' sample_state)
     \<noteq> PacketTooLong"
    using receive_command_length_gate
            [THEN conjunct1, of sample_micros_to_ticks 0 "''debug:1''" sample_state]
    by simp
  show ?thesis using long short by simp
qed

text \<open>
  C8. For every unsigned value \<open>v\<close> (below \<open>2^32\<close>, written in decimal), processing the
  command \<open>pre_ping_duration_us:v\<close> leaves \<open>pre_ping_duration = micros_to_ticks v\<close> and
  processing \<open>post_ping_duration_us:v\<close> leaves \<open>post_ping_duration = micros_to_ticks v\<close>;
  nothing else changes.
\<close>

theorem duration_round_trip:
  assumes "v < 2 ^ 32"
  shows "receive_command m u (''pre_ping_duration_us:'' @ decimal v) st =
           (Handled, st\<lparr>params := (params st)\<lparr>pre_ping_duration := m (of_nat v)\<rparr>\<rparr>) \<and>
         receive_command m u (''post_ping_duration_us:'' @ decimal v) st =
           (Handled, st\<lparr>params := (params st)\<lparr>post_ping_duration := m (of_nat v)\<rparr>\<rparr>)"
proof -
  have "v < 10 ^ 10" using assms by simp
  then have len: "length (decimal v) \<le> 10" by (intro length_decimal) simp_all
  have pre: "receive_command m u (''pre_ping_duration_us'' @ CHR '':'' # decimal v @ []) st =
          apply_pair m u ''pre_ping_duration_us'' (decimal v) st"
    using decimal_chars [of v] len by (intro receive_command_first_token) auto
  have post: "receive_command m u (''post_ping_duration_us'' @ CHR '':'' # decimal v @ []) st =
          apply_pair m u ''post_ping_duration_us'' (decimal v) st"
    using decimal_chars [of v] len by (intro receive_command_first_token) auto
  show ?thesis
    using pre post by (simp add: apply_pair_def sscanf_u_decimal)
qed

theorem duration_round_trip_witness:
  "(123::nat) < 2 ^ 32 \<and>
   receive_command sample_micros_to_ticks 0 ''pre_ping_duration_us:123'' sample_state =
     (Handled, sample_state\<lparr>params := (params sample_state)
        \<lparr>pre_ping_duration := sample_micros_to_ticks 123\<rparr>\<rparr>) \<and>
   receive_command sample_micros_to_ticks 0 ''post_ping_duration_us:123'' sample_state =
     (Handled, sample_state\<lparr>params := (params sample_state)
        \<lparr>post_ping_duration := sample_micros_to_ticks 123\<rparr>\<rparr>)"
  using duration_round_trip [of 123 sample_micros_to_ticks 0 sample_state]
  by (simp add: decimal.simps digit_char_def)

text \<open>
  A packet whose first token has no colon is rejected by \<open>parse_packet\<close> and changes
  nothing; the empty packet is one of them.
\<close>

lemma empty_packet_rejected: "receive_command m u [] st = (ParseFailed, st)"
  using receive_command_no_colon [of "[]" "[]" m u st] by simp

text \<open>
  C10. Claim: if any comma-separated token of a packet has no colon, \<open>parse_packet\<close> fails
  and nothing is modified, even when other tokens are well-formed. In the packet
  \<open>threshold:5,x\<close> the second token has no colon: \<open>parse_packet\<close> never looks at it,
  succeeds, and the handler sets \<open>ping_threshold\<close> to 5 and clears \<open>sync\<close>.
\<close>

theorem later_token_without_colon_not_rejected:
  "receive_command m u ''threshold:5,x'' st =
     (Handled, st\<lparr>params := (params st)\<lparr>ping_threshold := 5\<rparr>, sync := False\<rparr>)"
  using receive_command_first_token [of "''threshold''" "''5''" "'',x''" m u st]
  by (simp add: apply_pair_def sscanf_u_def isspace_def isdigit_def dec_value_def)

section \<open>The scheduler loop\<close>

subsection \<open>The example iteration, evaluated\<close>

lemma sample_conv:
  "ms_to_ticks sample_config 50 = 16666675" "ms_to_ticks sample_config 2000 = 666667000"
  "ms_to_ticks sample_config 100 = 33333350"
  by (simp_all add: sample_config_def CPU_CLOCK_HZ_def ARM_CLK_PLL_def)

lemma sample_fs: "sampling_frequency (FPGA_CLK sample_config) (params sample_state) = 5000000"
  by (simp add: sampling_frequency_def sample_config_def sample_state_def startup_state_def)

lemma sample_front:
  "cycle_front sample_config sample_input sample_state =
     ([AcquireSync 10500000 5000000],
      Go (sample_state\<lparr>previous_ping_tick := 1000000000, sync := True\<rparr>))"
  by (simp add: cycle_front_def acquire_phase_def sample_fs sample_input_def duration_samples_def)
     (simp add: sample_state_def startup_state_def)

lemma sample_predict:
  "predict_phase sample_config sample_input
     (sample_state\<lparr>previous_ping_tick := 1000000000, sync := True\<rparr>) =
     ([SilentRequest [57, 7, 0, 0, 100, 0, 0, 0]], Go [2316668000])"
  by (simp add: predict_phase_def sample_conv sample_input_def request_msg_def le_bytes32_def)
     (simp add: sample_state_def startup_state_def sample_config_def CPU_CLOCK_HZ_def
        ARM_CLK_PLL_def drop_bit_eq_div)

lemma sample_capture:
  "capture_phase sample_input 5000000
     (sample_state\<lparr>previous_ping_tick := 1000000000, sync := True\<rparr>) [2316668000] =
     ([Record 1500032, Normalize 1500032], Go (1500032, 2316668000))"
  by (simp add: capture_phase_def capture_length_def clamp_to_buffer_def round_up_to_packet_def
        duration_samples_def MAX_SAMPLES_def sample_input_def sample_state_def startup_state_def)

lemma sample_process:
  "process_phase sample_input 5000000
     (sample_state\<lparr>previous_ping_tick := 1000000000, sync := True\<rparr>) 1500032 2316668000 =
     ([Truncate 1500032, CrossCorrelate 250000 768 198000000, SendResult [30000, 60000, 90000],
       SendXcorr 1000, SendData 250000 768],
      NextCycle, sample_state\<lparr>previous_ping_tick := 2333168000, sync := True\<rparr>)"
  by (simp add: process_phase_def sample_input_def ping_offset_def CPU_CLOCK_HZ_def
        ARM_CLK_PLL_def MAX_SAMPLES_def)

lemma sample_cycle:
  "cycle sample_config sample_input sample_state =
     ([AcquireSync 10500000 5000000, SilentRequest [57, 7, 0, 0, 100, 0, 0, 0],
       Record 1500032, Normalize 1500032,
       Truncate 1500032, CrossCorrelate 250000 768 198000000, SendResult [30000, 60000, 90000],
       SendXcorr 1000, SendData 250000 768],
      NextCycle, sample_state\<lparr>previous_ping_tick := 2333168000, sync := True\<rparr>)"
proof -
  have nd: "\<not> debug_stream (sample_state\<lparr>previous_ping_tick := 1000000000, sync := True\<rparr>)"
    by (simp add: sample_state_def startup_state_def)
  show ?thesis
    by (simp add: cycle_def sample_front sample_fs sample_predict sample_capture sample_process nd)
qed

lemma sample_synced_not_debug:
  "\<not> debug_stream (sample_state\<lparr>previous_ping_tick := 1000000000, sync := True\<rparr>)"
  by (simp add: sample_state_def startup_state_def)

lemma sample_capture_fs:
  "capture_phase sample_input (sampling_frequency (FPGA_CLK sample_config) (params sample_state))
     (sample_state\<lparr>previous_ping_tick := 1000000000, sync := True\<rparr>) [2316668000] =
     ([Record 1500032, Normalize 1500032], Go (1500032, 2316668000))"
  by (simp add: sample_fs sample_capture)

lemma sample_round_trip: "ticks_to_ms sample_config (ms_to_ticks sample_config 100) = 100"
  by (simp add: sample_config_def CPU_CLOCK_HZ_def ARM_CLK_PLL_def)


subsection \<open>Sample counts\<close>

text \<open>
  The count \<open>go\<close> hands to \<open>record\<close> is a multiple of \<open>samples_per_packet\<close> whenever
  the rounding of line 445 does not overflow 32 bits, and covers the requested duration
  whenever the rounded count fits \<open>MAX_SAMPLES\<close>.
\<close>

lemma round_up_to_packet_unat:
  assumes spp: "0 < spp" and fit: "unat n + unat spp < 2 ^ 32"
  shows "unat (round_up_to_packet n spp) =
           (if unat n mod unat spp \<noteq> 0 then unat n + (unat spp - unat n mod unat spp) else unat n)"
proof (cases "n mod spp = 0")
  case True
  then have "unat (n mod spp) = 0" by simp
  then have "unat n mod unat spp = 0" by (simp add: unat_mod)
  then show ?thesis using True by (simp add: round_up_to_packet_def)
next
  case False
  have m: "unat (n mod spp) = unat n mod unat spp" by (simp add: unat_mod)
  have nz: "unat n mod unat spp \<noteq> 0" using False m by (metis unat_eq_0)
  have lt: "n mod spp < spp" using spp by (simp add: word_mod_less_divisor)
  then have sub: "unat (spp - n mod spp) = unat spp - unat n mod unat spp"
    using m by (simp add: unat_sub word_le_nat_alt word_less_nat_alt)
  have "unat n + unat (spp - n mod spp) < 2 ^ LENGTH(32)"
    using fit sub by simp
  then have "unat (n + (spp - n mod spp)) = unat n + unat (spp - n mod spp)"
    by (rule unat_add_lem [THEN iffD1])
  then show ?thesis using False nz sub by (simp add: round_up_to_packet_def)
qed

lemma round_up_nat_dvd:
  "0 < (s::nat) \<Longrightarrow> (if a mod s \<noteq> 0 then a + (s - a mod s) else a) mod s = 0"
proof -
  assume s: "0 < s"
  have "a mod s < s" using s by simp
  then have "a + (s - a mod s) = (a div s) * s + s" 
    using div_mult_mod_eq [of a s] by linarith
  then have "(a + (s - a mod s)) mod s = 0" by simp
  then show ?thesis by simp
qed

lemma round_up_to_packet_aligned:
  assumes spp: "0 < spp" and fit: "unat n + unat spp < 2 ^ 32"
  shows "round_up_to_packet n spp mod spp = 0"
proof -
  have s: "0 < unat spp" using spp by (simp add: word_less_nat_alt)
  have "unat (round_up_to_packet n spp mod spp) = 0"
    using round_up_nat_dvd [OF s, of "unat n"]
    by (simp add: unat_mod round_up_to_packet_unat [OF spp fit])
  then show ?thesis by (metis unat_eq_0)
qed

lemma round_up_to_packet_bounds:
  assumes spp: "0 < spp" and fit: "unat n + unat spp < 2 ^ 32"
  shows "unat n \<le> unat (round_up_to_packet n spp)"
    and "unat (round_up_to_packet n spp) < unat n + unat spp"
proof -
  have s: "0 < unat spp" using spp by (simp add: word_less_nat_alt)
  show "unat n \<le> unat (round_up_to_packet n spp)"
    by (simp add: round_up_to_packet_unat [OF spp fit])
  have "0 < unat n mod unat spp \<Longrightarrow> unat spp - unat n mod unat spp < unat spp"
    using s by simp
  then show "unat (round_up_to_packet n spp) < unat n + unat spp"
    using s by (auto simp add: round_up_to_packet_unat [OF spp fit])
qed

lemma unat_MAX_SAMPLES: "unat (of_nat MAX_SAMPLES :: uint32_t) = 99000000"
  by (simp add: MAX_SAMPLES_def)

lemma clamp_to_buffer_aligned:
  assumes spp: "0 < spp" and al: "n mod spp = 0"
  shows "clamp_to_buffer n spp mod spp = 0"
proof (cases "n > of_nat MAX_SAMPLES")
  case False
  then show ?thesis using al by (simp add: clamp_to_buffer_def)
next
  case True
  let ?M = "of_nat MAX_SAMPLES :: uint32_t"
  have "unat (?M mod spp) \<le> unat ?M" by (simp add: unat_mod)
  then have le: "?M mod spp \<le> ?M" by (simp only: word_le_nat_alt)
  have "unat (?M - ?M mod spp) = unat ?M - unat ?M mod unat spp"
    using le by (simp add: unat_sub unat_mod)
  moreover have "(unat ?M - unat ?M mod unat spp) mod unat spp = 0"
    by (simp add: minus_mod_eq_mult_div)
  ultimately have "unat ((?M - ?M mod spp) mod spp) = 0" by (simp add: unat_mod)
  then have "(?M - ?M mod spp) mod spp = 0" by (metis unat_eq_0)
  then show ?thesis using True by (simp add: clamp_to_buffer_def)
qed

lemma capture_length_aligned:
  assumes "0 < spp" and "unat (duration_samples (if dbg then 2100 else 300) fs) + unat spp < 2 ^ 32"
  shows "capture_length dbg fs spp spp mod spp = 0"
  unfolding capture_length_def
  using assms by (intro clamp_to_buffer_aligned round_up_to_packet_aligned)

lemma capture_length_full_window:
  assumes spp: "0 < spp"
    and fit: "unat (duration_samples 2100 fs) + unat spp \<le> MAX_SAMPLES"
  shows "unat (duration_samples 2100 fs) \<le> unat (capture_length True fs spp adc_spp)"
proof -
  let ?n = "duration_samples 2100 fs"
  have fit32: "unat ?n + unat spp < 2 ^ 32" using fit by (simp add: MAX_SAMPLES_def)
  have "unat (round_up_to_packet ?n spp) < MAX_SAMPLES"
    using round_up_to_packet_bounds(2) [OF spp fit32] fit by simp
  then have "\<not> round_up_to_packet ?n spp > of_nat MAX_SAMPLES"
    by (simp add: word_less_nat_alt unat_MAX_SAMPLES MAX_SAMPLES_def)
  then have "capture_length True fs spp adc_spp = round_up_to_packet ?n spp"
    by (simp add: capture_length_def clamp_to_buffer_def)
  then show ?thesis using round_up_to_packet_bounds(1) [OF spp fit32] by simp
qed


subsection \<open>The handler never sets the sync bit\<close>

lemma apply_pair_sync: "sync (snd (apply_pair m u k v st)) \<Longrightarrow> sync st"
  by (simp add: apply_pair_def split: if_splits scan.splits)

lemma apply_pairs_sync: "sync (snd (apply_pairs m u data ps st)) \<Longrightarrow> sync st"
proof (induction ps arbitrary: st)
  case Nil
  then show ?case by simp
next
  case (Cons p ps)
  obtain r st' where r: "apply_pair m u (cstr data (key p)) (cstr data (val p)) st = (r, st')"
    by (cases "apply_pair m u (cstr data (key p)) (cstr data (val p)) st")
  have "sync st'"
    using Cons.prems r Cons.IH [of st'] by (cases r) simp_all
  then show ?case using apply_pair_sync [of m u "cstr data (key p)" "cstr data (val p)" st] r by simp
qed

lemma receive_command_sync:
  assumes "sync (snd (receive_command m u payload st))"
  shows "sync st"
proof (cases "length payload > 1024 - 1")
  case True
  with assms show ?thesis by (simp add: receive_command_def)
next
  case False
  show ?thesis
  proof (cases "parse_packet (payload @ [NUL]) (length payload + 1) 10")
    case None
    with False assms show ?thesis by (simp add: receive_command_def)
  next
    case (Some dp)
    obtain data pairs where dp: "dp = (data, pairs)" by (cases dp)
    have "receive_command m u payload st = apply_pairs m u data pairs st"
      using False Some dp by (simp add: receive_command_def)
    with assms show ?thesis by (simp add: apply_pairs_sync)
  qed
qed

lemma dispatch_sync: "dispatch_network_stack m u ps st = Go st' \<Longrightarrow> sync st' \<Longrightarrow> sync st"
proof (induction ps arbitrary: st)
  case Nil
  then show ?case by simp
next
  case (Cons p ps)
  obtain r st1 where r: "receive_command m u p st = (r, st1)"
    by (cases "receive_command m u p st")
  have "dispatch_network_stack m u ps st1 = Go st'"
    using Cons.prems(1) r by (cases r) simp_all
  then have "sync st1" using Cons.IH Cons.prems(2) by blast
  then show ?case using receive_command_sync [of m u p st] r by simp
qed

lemma debug_commands:
  "receive_command m u ''debug:0'' st = (Handled, st\<lparr>debug_stream := False\<rparr>)"
  "receive_command m u ''debug:1'' st = (Handled, st\<lparr>debug_stream := True\<rparr>)"
  using receive_command_first_token [of "''debug''" "''0''" "[]" m u st]
        receive_command_first_token [of "''debug''" "''1''" "[]" m u st]
  by (simp_all add: apply_pair_def sscanf_u_def isspace_def isdigit_def dec_value_def)


subsection \<open>The handler never changes \<open>samples_per_packet\<close>\<close>

lemma apply_pair_spp:
  "samples_per_packet (params (snd (apply_pair m u k v st))) = samples_per_packet (params st)"
  by (simp add: apply_pair_def split: scan.splits)

lemma apply_pairs_spp:
  "samples_per_packet (params (snd (apply_pairs m u data ps st))) = samples_per_packet (params st)"
proof (induction ps arbitrary: st)
  case Nil
  show ?case by simp
next
  case (Cons p ps)
  obtain r st' where r: "apply_pair m u (cstr data (key p)) (cstr data (val p)) st = (r, st')"
    by (cases "apply_pair m u (cstr data (key p)) (cstr data (val p)) st")
  have "samples_per_packet (params st') = samples_per_packet (params st)"
    using apply_pair_spp [of m u "cstr data (key p)" "cstr data (val p)" st] r by simp
  then show ?case using r Cons.IH [of st'] by (cases r) simp_all
qed

lemma receive_command_spp:
  "samples_per_packet (params (snd (receive_command m u payload st))) = samples_per_packet (params st)"
proof (cases "length payload > 1024 - 1")
  case True
  then show ?thesis by (simp add: receive_command_def)
next
  case False
  show ?thesis
  proof (cases "parse_packet (payload @ [NUL]) (length payload + 1) 10")
    case None
    with False show ?thesis by (simp add: receive_command_def)
  next
    case (Some dp)
    obtain data pairs where dp: "dp = (data, pairs)" by (cases dp)
    have "receive_command m u payload st = apply_pairs m u data pairs st"
      using False Some dp by (simp add: receive_command_def)
    then show ?thesis by (simp add: apply_pairs_spp)
  qed
qed

lemma dispatch_spp:
  "dispatch_network_stack m u ps st = Go st' \<Longrightarrow>
     samples_per_packet (params st') = samples_per_packet (params st)"
proof (induction ps arbitrary: st)
  case Nil
  then show ?case by simp
next
  case (Cons p ps)
  obtain r st1 where r: "receive_command m u p st = (r, st1)"
    by (cases "receive_command m u p st")
  have "dispatch_network_stack m u ps st1 = Go st'"
    using Cons.prems r by (cases r) simp_all
  then have "samples_per_packet (params st') = samples_per_packet (params st1)"
    by (rule Cons.IH)
  then show ?case using receive_command_spp [of m u p st] r by simp
qed

lemma sync_loop_spp:
  "sync_loop cfg u n fs as st = (evs, Go (found, st')) \<Longrightarrow>
     samples_per_packet (params st') = samples_per_packet (params st)"
proof (induction as arbitrary: st evs)
  case Nil
  then show ?case by simp
next
  case (Cons a as)
  have ok: "as_ok a" using Cons.prems by (auto split: if_splits)
  obtain st1 where d: "dispatch_network_stack (micros_to_ticks cfg) u (as_inbox a)
                    (st\<lparr>previous_ping_tick := as_tick a\<rparr>) = Go st1"
    using Cons.prems ok by (auto split: res.splits)
  have s1: "samples_per_packet (params st1) = samples_per_packet (params st)"
    using dispatch_spp [OF d] by simp
  show ?case
  proof (cases "\<not> as_found a \<and> \<not> debug_stream st1")
    case False
    then have "st' = st1" using Cons.prems ok d by auto
    then show ?thesis using s1 by simp
  next
    case True
    obtain evs' where "sync_loop cfg u n fs as st1 = (evs', Go (found, st'))"
      using Cons.prems ok d True by (auto split: prod.splits)
    from Cons.IH [OF this] show ?thesis using s1 by simp
  qed
qed

lemma cycle_front_spp:
  assumes "cycle_front cfg inp st = (evs, Go st1)"
  shows "samples_per_packet (params st1) = samples_per_packet (params st)"
proof -
  obtain st0 where d: "dispatch_network_stack (micros_to_ticks cfg) (uninit inp) (inbox inp) st = Go st0"
    and a: "acquire_phase cfg inp (sampling_frequency (FPGA_CLK cfg) (params st)) st0 = (evs, Go st1)"
    using assms by (auto simp: cycle_front_def split: res.splits)
  have s0: "samples_per_packet (params st0) = samples_per_packet (params st)"
    using dispatch_spp [OF d] .
  show ?thesis
  proof (cases "\<not> sync st0 \<and> \<not> debug_stream st0")
    case False
    then have "st1 = st0" using a by (auto simp: acquire_phase_def)
    then show ?thesis using s0 by simp
  next
    case True
    let ?fs = "sampling_frequency (FPGA_CLK cfg) (params st)"
    obtain evs' found st2 where l: "sync_loop cfg (uninit inp) (duration_samples 2100 ?fs) ?fs
        (sync_attempts inp) st0 = (evs', Go (found, st2))"
      and st1: "st1 = (if found then st2\<lparr>sync := True\<rparr> else st2)"
      using a True by (auto simp: acquire_phase_def split: prod.splits res.splits)
    have "samples_per_packet (params st2) = samples_per_packet (params st0)"
      using sync_loop_spp [OF l] .
    then show ?thesis using s0 st1 by simp
  qed
qed


subsection \<open>The calls of each phase\<close>

lemma sync_loop_events:
  "sync_loop cfg u n fs as st = (evs, r) \<Longrightarrow>
     (\<exists>evs'. evs = AcquireSync n fs # evs') \<and> set evs \<subseteq> {AcquireSync n fs}"
proof (induction as arbitrary: st evs r)
  case Nil
  then show ?case by auto
next
  case (Cons a as)
  show ?case
  proof (cases "as_ok a")
    case False
    with Cons.prems show ?thesis by auto
  next
    case True
    show ?thesis
    proof (cases "dispatch_network_stack (micros_to_ticks cfg) u (as_inbox a)
                    (st\<lparr>previous_ping_tick := as_tick a\<rparr>)")
      case (Stop e st')
      with True Cons.prems show ?thesis by auto
    next
      case (Go st')
      show ?thesis
      proof (cases "\<not> as_found a \<and> \<not> debug_stream st'")
        case False
        with True Go Cons.prems show ?thesis by auto
      next
        case again: True
        obtain evs' r' where rec: "sync_loop cfg u n fs as st' = (evs', r')"
          by (cases "sync_loop cfg u n fs as st'")
        from Cons.IH [OF rec] have "set evs' \<subseteq> {AcquireSync n fs}" by blast
        moreover have "evs = AcquireSync n fs # evs'"
          using True Go again rec Cons.prems by simp
        ultimately show ?thesis by auto
      qed
    qed
  qed
qed

lemma acquire_phase_events:
  "acquire_phase cfg inp fs st = (evs, r) \<Longrightarrow> set evs \<subseteq> {AcquireSync (duration_samples 2100 fs) fs}"
proof (cases "\<not> sync st \<and> \<not> debug_stream st")
  case False
  assume "acquire_phase cfg inp fs st = (evs, r)"
  with False show ?thesis by (auto simp: acquire_phase_def)
next
  case True
  assume a: "acquire_phase cfg inp fs st = (evs, r)"
  obtain evs' r' where l: "sync_loop cfg (uninit inp) (duration_samples 2100 fs) fs (sync_attempts inp) st = (evs', r')"
    by (cases "sync_loop cfg (uninit inp) (duration_samples 2100 fs) fs (sync_attempts inp) st")
  have "evs = evs'" using a l True by (auto simp: acquire_phase_def split: res.splits)
  then show ?thesis using sync_loop_events [OF l] by simp
qed

lemma acquire_phase_enters:
  assumes "\<not> sync st" and "\<not> debug_stream st"
  shows "\<exists>evs. fst (acquire_phase cfg inp fs st) = AcquireSync (duration_samples 2100 fs) fs # evs"
proof -
  obtain evs' r' where l: "sync_loop cfg (uninit inp) (duration_samples 2100 fs) fs (sync_attempts inp) st = (evs', r')"
    by (cases "sync_loop cfg (uninit inp) (duration_samples 2100 fs) fs (sync_attempts inp) st")
  have "fst (acquire_phase cfg inp fs st) = evs'"
    using assms l by (auto simp: acquire_phase_def split: res.splits)
  then show ?thesis using sync_loop_events [OF l] by auto
qed

lemma acquire_phase_skipped:
  "sync st \<or> debug_stream st \<Longrightarrow> acquire_phase cfg inp fs st = ([], Go st)"
  by (auto simp: acquire_phase_def)

lemma cycle_front_events:
  "cycle_front cfg inp st = (evs, r) \<Longrightarrow>
     set evs \<subseteq> {AcquireSync (duration_samples 2100 (sampling_frequency (FPGA_CLK cfg) (params st)))
                   (sampling_frequency (FPGA_CLK cfg) (params st))}"
  using acquire_phase_events
  by (fastforce simp: cycle_front_def split: res.splits)

lemma predict_phase_events:
  "predict_phase cfg inp st = (evs, r) \<Longrightarrow> \<forall>e\<in>set evs. is_silent_request e"
  by (auto simp: predict_phase_def Let_def is_silent_request_def
           split: if_splits option.splits list.splits)

lemma capture_phase_events:
  "capture_phase inp fs st clk = (evs, r) \<Longrightarrow>
     set evs \<subseteq> {Record (capture_length (debug_stream st) fs (samples_per_packet (params st))
                     (adc_samples_per_packet inp)),
                 Normalize (capture_length (debug_stream st) fs (samples_per_packet (params st))
                     (adc_samples_per_packet inp)),
                 Filter (capture_length (debug_stream st) fs (samples_per_packet (params st))
                     (adc_samples_per_packet inp))} \<and>
     (evs = [] \<or> hd evs = Record (capture_length (debug_stream st) fs (samples_per_packet (params st))
                     (adc_samples_per_packet inp)))"
  by (auto simp: capture_phase_def Let_def split: if_splits list.splits)

lemma capture_phase_Go:
  "capture_phase inp fs st clk = (evs, Go (n, t0)) \<Longrightarrow>
     n = capture_length (debug_stream st) fs (samples_per_packet (params st))
           (adc_samples_per_packet inp) \<and>
     evs = [Record n, Normalize n] @ (if filter_on (params st) then [Filter n] else [])"
  by (auto simp: capture_phase_def Let_def split: if_splits list.splits)

lemma process_phase_events:
  "process_phase inp fs st n t0 = (evs, r) \<Longrightarrow>
     (\<exists>evs'. evs = Truncate n # evs') \<and> (\<forall>e\<in>set evs. \<not> is_silent_request e)"
  by (auto simp: process_phase_def Let_def is_silent_request_def
           split: if_splits option.splits)

lemma process_phase_capacity:
  "CrossCorrelate s l c \<in> set (fst (process_phase inp fs st n t0)) \<Longrightarrow> c = MAX_SAMPLES * 2"
  by (auto simp: process_phase_def Let_def split: option.splits if_splits)

lemma inbox_irrelevant:
  "predict_phase cfg (inp\<lparr>inbox := x\<rparr>) st = predict_phase cfg inp st"
  "capture_phase (inp\<lparr>inbox := x\<rparr>) fs st clk = capture_phase inp fs st clk"
  "process_phase (inp\<lparr>inbox := x\<rparr>) fs st n t0 = process_phase inp fs st n t0"
  "debug_dump (inp\<lparr>inbox := x\<rparr>) st n = debug_dump inp st n"
  by (simp_all add: predict_phase_def capture_phase_def process_phase_def debug_dump_def
        cong: option.case_cong list.case_cong prod.case_cong if_cong)

lemma truncate_out_irrelevant:
  "cycle_front cfg (inp\<lparr>truncate_out := t\<rparr>) st = cycle_front cfg inp st"
  "predict_phase cfg (inp\<lparr>truncate_out := t\<rparr>) st = predict_phase cfg inp st"
  "capture_phase (inp\<lparr>truncate_out := t\<rparr>) fs st clk = capture_phase inp fs st clk"
  by (simp_all add: cycle_front_def acquire_phase_def predict_phase_def capture_phase_def
        cong: option.case_cong list.case_cong prod.case_cong if_cong res.case_cong)

lemma debug_cycle_front:
  assumes "dispatch_network_stack (micros_to_ticks cfg) (uninit inp) (inbox inp) st = Go st1"
    and "debug_stream st1"
  shows "cycle_front cfg inp st = ([], Go st1)"
  using assms by (simp add: cycle_front_def acquire_phase_skipped)

lemma cycle_events_prefix: "\<exists>more. fst (cycle cfg inp st) = fst (cycle_front cfg inp st) @ more"
  by (auto simp: cycle_def Let_def split: prod.splits res.splits)

lemma cycle_nondebug:
  assumes front: "cycle_front cfg inp st = (ev1, Go st1)"
    and nd: "\<not> debug_stream st1"
    and pred: "predict_phase cfg inp st1 = (ev2, Go clk)"
    and cap: "capture_phase inp (sampling_frequency (FPGA_CLK cfg) (params st)) st1 clk
                = (ev3, Go (n, t0))"
  shows "cycle cfg inp st =
           (case process_phase inp (sampling_frequency (FPGA_CLK cfg) (params st)) st1 n t0 of
              (ev4, e, st') \<Rightarrow> (ev1 @ ev2 @ ev3 @ ev4, e, st'))"
  using assms by (simp add: cycle_def)

lemma sync_acquisition_entered:
  assumes disp: "dispatch_network_stack (micros_to_ticks cfg) (uninit inp) (inbox inp) st = Go st2"
    and ns: "\<not> sync st" and nd: "\<not> debug_stream st2"
  shows "\<exists>evs. fst (cycle cfg inp st) =
           AcquireSync (duration_samples 2100 (sampling_frequency (FPGA_CLK cfg) (params st)))
             (sampling_frequency (FPGA_CLK cfg) (params st)) # evs"
proof -
  have "\<not> sync st2" using dispatch_sync [OF disp] ns by blast
  then obtain evs where "fst (cycle_front cfg inp st) =
      AcquireSync (duration_samples 2100 (sampling_frequency (FPGA_CLK cfg) (params st)))
             (sampling_frequency (FPGA_CLK cfg) (params st)) # evs"
    using acquire_phase_enters [of st2 cfg inp] nd disp by (auto simp: cycle_front_def)
  then show ?thesis using cycle_events_prefix [of cfg inp st] by auto
qed


subsection \<open>The loops on the tick clock\<close>

text \<open>
  What the two loops have seen when they return, and that they return as soon as some
  reading satisfies their exit test.
\<close>

lemma fast_forward_Some:
  "fast_forward a b clk p = Some (clk', nxt) \<Longrightarrow>
     \<exists>k<length clk. nxt = p + of_nat k * b \<and> clk' = drop (Suc k) clk \<and>
        clk ! k \<le> nxt - a \<and> (\<forall>i<k. clk ! i > p + of_nat i * b - a)"
proof (induction clk arbitrary: p)
  case Nil
  then show ?case by simp
next
  case (Cons now clk)
  show ?case
  proof (cases "now > p - a")
    case False
    then have "clk' = clk" "nxt = p" using Cons.prems by simp_all
    then show ?thesis using False by (intro exI [of _ 0]) simp
  next
    case True
    then have "fast_forward a b clk (p + b) = Some (clk', nxt)" using Cons.prems by simp
    from Cons.IH [OF this] obtain k where k: "k < length clk" "nxt = p + b + of_nat k * b"
      "clk' = drop (Suc k) clk" "clk ! k \<le> nxt - a" "\<forall>i<k. clk ! i > p + b + of_nat i * b - a"
      by blast
    have later: "\<forall>i<Suc k. (now # clk) ! i > p + of_nat i * b - a"
    proof (intro allI impI)
      fix i assume i: "i < Suc k"
      show "(now # clk) ! i > p + of_nat i * b - a"
      proof (cases i)
        case 0
        then show ?thesis using True by simp
      next
        case (Suc i')
        then have "clk ! i' > p + b + of_nat i' * b - a" using k(5) i by simp
        then show ?thesis using Suc by (simp add: algebra_simps)
      qed
    qed
    have "nxt = p + of_nat (Suc k) * b" using k(2) by (simp add: algebra_simps)
    then show ?thesis using k later by (intro exI [of _ "Suc k"]) simp
  qed
qed

lemma fast_forward_returns:
  "k < length clk \<Longrightarrow> clk ! k \<le> p + of_nat k * b - a \<Longrightarrow> fast_forward a b clk p \<noteq> None"
proof (induction clk arbitrary: p k)
  case Nil
  then show ?case by simp
next
  case (Cons now clk)
  show ?case
  proof (cases "now > p - a")
    case False
    then show ?thesis by simp
  next
    case True
    then obtain k' where k': "k = Suc k'" using Cons.prems by (cases k) auto
    have "clk ! k' \<le> (p + b) + of_nat k' * b - a"
      using Cons.prems(2) k' by (simp add: algebra_simps)
    then have "fast_forward a b clk (p + b) \<noteq> None"
      using Cons.IH [of k' "p + b"] Cons.prems(1) k' by simp
    then show ?thesis using True by simp
  qed
qed

lemma busy_wait_Some:
  "busy_wait t clk = Some clk' \<Longrightarrow>
     \<exists>j<length clk. clk' = drop (Suc j) clk \<and> t \<le> clk ! j \<and> (\<forall>i<j. clk ! i < t)"
proof (induction clk)
  case Nil
  then show ?case by simp
next
  case (Cons now clk)
  show ?case
  proof (cases "now < t")
    case False
    then have "clk' = clk" using Cons.prems by simp
    then show ?thesis using False by (intro exI [of _ 0]) simp
  next
    case True
    then have "busy_wait t clk = Some clk'" using Cons.prems by simp
    from Cons.IH [OF this] obtain j where j: "j < length clk" "clk' = drop (Suc j) clk"
      "t \<le> clk ! j" "\<forall>i<j. clk ! i < t" by blast
    have "\<forall>i<Suc j. (now # clk) ! i < t"
      using True j(4) by (auto simp: nth_Cons split: nat.splits)
    then show ?thesis using j by (intro exI [of _ "Suc j"]) simp
  qed
qed

lemma busy_wait_returns: "j < length clk \<Longrightarrow> t \<le> clk ! j \<Longrightarrow> busy_wait t clk \<noteq> None"
proof (induction clk arbitrary: j)
  case Nil
  then show ?case by simp
next
  case (Cons now clk)
  show ?case
  proof (cases "now < t")
    case False
    then show ?thesis by simp
  next
    case True
    then obtain j' where "j = Suc j'" using Cons.prems by (cases j) auto
    then show ?thesis using Cons True by auto
  qed
qed

lemma length_le_bytes32: "length (le_bytes32 w) = 4"
  by (simp add: le_bytes32_def)

lemma predict_phase_Go:
  assumes nd: "\<not> debug_stream st" and pred: "predict_phase cfg inp st = (evs, Go clk)"
  shows "\<exists>k j. k + 2 + j < length (clock inp) \<and>
           (\<forall>i<k. clock inp ! i > previous_ping_tick st + of_nat i * ms_to_ticks cfg 2000
                                      - ms_to_ticks cfg 50) \<and>
           clock inp ! k \<le> previous_ping_tick st + of_nat k * ms_to_ticks cfg 2000
                              - ms_to_ticks cfg 50 \<and>
           evs = [SilentRequest
                    (request_msg cfg (clock inp ! (k + 1))
                       (previous_ping_tick st + of_nat k * ms_to_ticks cfg 2000 - ms_to_ticks cfg 50)
                       (ms_to_ticks cfg 100))] \<and>
           (\<forall>i<j. clock inp ! (k + 2 + i) < previous_ping_tick st + of_nat k * ms_to_ticks cfg 2000
                                      - ms_to_ticks cfg 50) \<and>
           previous_ping_tick st + of_nat k * ms_to_ticks cfg 2000 - ms_to_ticks cfg 50
             \<le> clock inp ! (k + 2 + j) \<and>
           clk = drop (k + 3 + j) (clock inp)"
proof -
  let ?a = "ms_to_ticks cfg 50" and ?b = "ms_to_ticks cfg 2000" and ?p = "previous_ping_tick st"
  obtain clk1 nxt where ff: "fast_forward ?a ?b (clock inp) ?p = Some (clk1, nxt)"
    using nd pred by (auto simp: predict_phase_def split: option.splits)
  obtain now clk2 where c1: "clk1 = now # clk2"
    using nd pred ff by (cases clk1) (auto simp: predict_phase_def)
  have sent: "silent_sent inp"
    using nd pred ff c1 by (auto simp: predict_phase_def Let_def split: if_splits)
  have bw: "busy_wait (nxt - ?a) clk2 = Some clk"
    using nd pred ff c1 sent
    by (auto simp: predict_phase_def Let_def split: option.splits)
  have evs: "evs = [SilentRequest (request_msg cfg now (nxt - ?a) (ms_to_ticks cfg 100))]"
    using nd pred ff c1 sent
    by (auto simp: predict_phase_def Let_def split: option.splits)
  from fast_forward_Some [OF ff] obtain k where k: "k < length (clock inp)"
    "nxt = ?p + of_nat k * ?b" "clk1 = drop (Suc k) (clock inp)" "clock inp ! k \<le> nxt - ?a"
    "\<forall>i<k. clock inp ! i > ?p + of_nat i * ?b - ?a" by blast
  from busy_wait_Some [OF bw] obtain j where j: "j < length clk2" "clk = drop (Suc j) clk2"
    "nxt - ?a \<le> clk2 ! j" "\<forall>i<j. clk2 ! i < nxt - ?a" by blast
  have clk2: "clk2 = drop (k + 2) (clock inp)"
    using k(3) c1 by (metis Suc_eq_plus1 add_2_eq_Suc' drop_Suc drop_drop list.sel(3) tl_drop add.commute)
  have now: "now = clock inp ! (k + 1)"
    using k(3) c1 by (metis Cons_nth_drop_Suc Suc_eq_plus1 drop_eq_Nil2 linorder_not_less list.discI list.inject)
  have len: "k + 2 + j < length (clock inp)" using j(1) clk2 by simp
  have nthj: "\<And>i. i \<le> j \<Longrightarrow> clk2 ! i = clock inp ! (k + 2 + i)"
    using clk2 len by simp
  have "Suc j + (k + 2) = k + 3 + j" by simp
  then have "clk = drop (k + 3 + j) (clock inp)" using j(2) clk2 by (simp only: drop_drop)
  then show ?thesis
    using len k(2,4,5) j(3,4) nthj evs now
    by (intro exI [of _ k] exI [of _ j]) auto
qed

lemma cycle_after_predict:
  assumes front: "cycle_front cfg inp st = (ev1, Go st1)"
    and nd: "\<not> debug_stream st1"
    and pred: "predict_phase cfg inp st1 = (ev2, Go clk)"
  shows "\<exists>rest. fst (cycle cfg inp st) = ev1 @ ev2 @ rest \<and>
           (\<forall>e\<in>set rest. \<not> is_silent_request e) \<and> (rest = [] \<or> (\<exists>n. hd rest = Record n))"
proof -
  let ?fs = "sampling_frequency (FPGA_CLK cfg) (params st)"
  obtain ev3 r3 where cap: "capture_phase inp ?fs st1 clk = (ev3, r3)"
    by (cases "capture_phase inp ?fs st1 clk")
  have ev3: "\<forall>e\<in>set ev3. \<not> is_silent_request e" "ev3 = [] \<or> (\<exists>n. hd ev3 = Record n)"
    using capture_phase_events [OF cap] by (auto simp: is_silent_request_def)
  show ?thesis
  proof (cases r3)
    case (Stop e st')
    then have "fst (cycle cfg inp st) = ev1 @ ev2 @ ev3"
      using front pred cap by (simp add: cycle_def)
    then show ?thesis using ev3 by blast
  next
    case (Go nt)
    obtain n t0 where nt: "nt = (n, t0)" by (cases nt)
    obtain ev4 e st' where proc: "process_phase inp ?fs st1 n t0 = (ev4, e, st')"
      by (cases "process_phase inp ?fs st1 n t0")
    have cap': "capture_phase inp ?fs st1 clk = (ev3, Go (n, t0))" using cap Go nt by simp
    have "fst (cycle cfg inp st) = ev1 @ ev2 @ (ev3 @ ev4)"
      using cycle_nondebug [OF front nd pred cap'] proc by simp
    moreover have "\<forall>e\<in>set (ev3 @ ev4). \<not> is_silent_request e"
      using ev3(1) process_phase_events [OF proc] by auto
    moreover have "ev3 \<noteq> []" using capture_phase_Go [OF cap'] by auto
    then have "\<exists>n. hd (ev3 @ ev4) = Record n" using ev3(2) by auto
    ultimately show ?thesis by blast
  qed
qed


subsection \<open>Further example iterations\<close>

lemma lost_cycle:
  "cycle sample_config lost_input sample_state =
     ([AcquireSync 10500000 5000000, SilentRequest [57, 7, 0, 0, 100, 0, 0, 0],
       Record 1500032, Normalize 1500032, Truncate 1500032],
      NextCycle, sample_state\<lparr>previous_ping_tick := 1000000000, sync := False\<rparr>)"
proof -
  have "process_phase lost_input 5000000
          (sample_state\<lparr>previous_ping_tick := 1000000000, sync := True\<rparr>) 1500032 2316668000 =
        ([Truncate 1500032], NextCycle,
         sample_state\<lparr>previous_ping_tick := 1000000000, sync := False\<rparr>)"
    by (simp add: process_phase_def lost_input_def)
  then show ?thesis
    by (simp add: cycle_def lost_input_def truncate_out_irrelevant sample_front sample_fs
          sample_predict sample_capture sample_synced_not_debug)
qed

lemma debug_on_cycle:
  "cycle sample_config debug_on_input
     (sample_state\<lparr>previous_ping_tick := 1000000000, sync := False\<rparr>) =
     ([Record 10500096, Normalize 10500096, SendData 0 10500096], NextCycle,
      sample_state\<lparr>previous_ping_tick := 1000000000, sync := False, debug_stream := True\<rparr>)"
proof -
  let ?s = "sample_state\<lparr>previous_ping_tick := 1000000000, sync := False\<rparr>"
  let ?d = "sample_state\<lparr>previous_ping_tick := 1000000000, sync := False, debug_stream := True\<rparr>"
  have fs: "sampling_frequency (FPGA_CLK sample_config) (params ?s) = 5000000"
    by (simp add: sampling_frequency_def sample_config_def sample_state_def startup_state_def)
  have "dispatch_network_stack (micros_to_ticks sample_config) (uninit debug_on_input)
          (inbox debug_on_input) ?s = Go ?d"
    by (simp add: debug_on_input_def debug_commands)
  then have front: "cycle_front sample_config debug_on_input ?s = ([], Go ?d)"
    by (rule debug_cycle_front) simp
  have pred: "predict_phase sample_config debug_on_input ?d = ([], Go (clock debug_on_input))"
    by (simp add: predict_phase_def)
  have cap: "capture_phase debug_on_input 5000000 ?d (clock debug_on_input) =
          ([Record 10500096, Normalize 10500096], Go (10500096, 1700000000))"
    by (simp add: capture_phase_def capture_length_def clamp_to_buffer_def
          round_up_to_packet_def duration_samples_def MAX_SAMPLES_def debug_on_input_def
          sample_input_def sample_state_def startup_state_def)
  have dump: "debug_dump debug_on_input ?d 10500096 = ([SendData 0 10500096], NextCycle, ?d)"
    by (simp add: debug_dump_def debug_on_input_def sample_input_def)
  show ?thesis
    by (simp add: cycle_def front sample_fs pred cap dump)
qed

lemma debug_off_cycle:
  "cycle sample_config debug_off_input sample_debug_state =
     ([AcquireSync 10500000 5000000, SilentRequest [57, 7, 0, 0, 100, 0, 0, 0],
       Record 1500032, Normalize 1500032,
       Truncate 1500032, CrossCorrelate 250000 768 198000000, SendResult [30000, 60000, 90000],
       SendXcorr 1000, SendData 250000 768],
      NextCycle, sample_state\<lparr>previous_ping_tick := 2333168000, sync := True\<rparr>)"
proof -
  let ?s1 = "sample_state\<lparr>previous_ping_tick := 1000000000, sync := True\<rparr>"
  have fs: "sampling_frequency (FPGA_CLK sample_config) (params sample_debug_state) = 5000000"
    by (simp add: sampling_frequency_def sample_config_def sample_debug_state_def
          sample_state_def startup_state_def)
  have disp: "dispatch_network_stack (micros_to_ticks sample_config) (uninit debug_off_input)
          (inbox debug_off_input) sample_debug_state = Go sample_state"
    by (simp add: debug_off_input_def debug_commands sample_debug_state_def)
       (simp add: sample_state_def startup_state_def)
  have acq: "acquire_phase sample_config debug_off_input 5000000 sample_state =
               ([AcquireSync 10500000 5000000], Go ?s1)"
    by (simp add: acquire_phase_def debug_off_input_def sample_input_def duration_samples_def)
       (simp add: sample_state_def startup_state_def)
  have front: "cycle_front sample_config debug_off_input sample_debug_state =
               ([AcquireSync 10500000 5000000], Go ?s1)"
    by (simp add: cycle_front_def disp fs acq)
  show ?thesis
    by (simp add: cycle_def front fs sample_synced_not_debug)
       (simp add: debug_off_input_def inbox_irrelevant sample_predict sample_capture
          sample_process)
qed


subsection \<open>Ping sync after \<open>truncate\<close> (C1)\<close>

text \<open>
  C1 as stated fails. In the first iteration below \<open>truncate\<close> returns with
  \<open>located = false\<close> and the iteration ends with \<open>sync = false\<close>; a \<open>debug:1\<close> datagram is
  served at the top of the next iteration, which then skips sync acquisition and streams a
  2.1 s buffer.
\<close>

theorem sync_acquisition_skipped_counterexample:
  "cycle sample_config lost_input sample_state =
     ([AcquireSync 10500000 5000000, SilentRequest [57, 7, 0, 0, 100, 0, 0, 0],
       Record 1500032, Normalize 1500032, Truncate 1500032],
      NextCycle, sample_state\<lparr>previous_ping_tick := 1000000000, sync := False\<rparr>) \<and>
   truncate_out lost_input = Some (False, 0, 0) \<and>
   fst (cycle sample_config debug_on_input
          (sample_state\<lparr>previous_ping_tick := 1000000000, sync := False\<rparr>)) =
     [Record 10500096, Normalize 10500096, SendData 0 10500096]"
proof -
  have "truncate_out lost_input = Some (False, 0, 0)" by (simp add: lost_input_def)
  then show ?thesis by (simp add: lost_cycle debug_on_cycle)
qed

text \<open>
  C1, amended. Take an iteration that is not in debug mode when it tests \<open>debug_stream\<close>
  at line 416 and that reaches \<open>truncate\<close>, which returns \<open>located\<close>. If \<open>located\<close> is
  false, the iteration ends there by \<open>continue\<close> with \<open>sync = false\<close>, none of its calls is
  a transmission of a result, a correlation trace or a ping trace, and the next iteration
  starts with \<open>acquire_sync\<close> unless the datagrams served at its top have switched
  \<open>debug_stream\<close> on. If \<open>located\<close> is true, \<open>sync\<close> is true afterwards, and with
  \<open>start_index < end_index\<close> the next call is \<open>cross_correlate\<close>, followed, when it and the
  sends succeed, by the three transmissions.
\<close>

theorem truncate_outcome:
  assumes front: "cycle_front cfg inp st = (ev1, Go st1)"
    and nd: "\<not> debug_stream st1"
    and pred: "predict_phase cfg inp st1 = (ev2, Go clk)"
    and cap: "capture_phase inp (sampling_frequency (FPGA_CLK cfg) (params st)) st1 clk
                = (ev3, Go (n, t0))"
    and trunc: "truncate_out inp = Some (located, start_index, end_index)"
  shows "(\<not> located \<longrightarrow>
            cycle cfg inp st = (ev1 @ ev2 @ ev3 @ [Truncate n], NextCycle, st1\<lparr>sync := False\<rparr>) \<and>
            (\<forall>e\<in>set (ev1 @ ev2 @ ev3 @ [Truncate n]). \<not> is_transmission e) \<and>
            (\<forall>inp' st2.
               dispatch_network_stack (micros_to_ticks cfg) (uninit inp') (inbox inp')
                 (st1\<lparr>sync := False\<rparr>) = Go st2 \<and> \<not> debug_stream st2 \<longrightarrow>
               (\<exists>evs. fst (cycle cfg inp' (st1\<lparr>sync := False\<rparr>)) =
                  AcquireSync (duration_samples 2100 (sampling_frequency (FPGA_CLK cfg) (params st1)))
                    (sampling_frequency (FPGA_CLK cfg) (params st1)) # evs))) \<and>
         (located \<longrightarrow>
            sync (snd (snd (cycle cfg inp st))) \<and>
            (start_index < end_index \<longrightarrow>
               (\<exists>evs. fst (cycle cfg inp st) =
                  ev1 @ ev2 @ ev3 @ Truncate n #
                    CrossCorrelate start_index (end_index - start_index) (MAX_SAMPLES * 2) # evs \<and>
                  (\<forall>m r. cross_correlate_out inp = Some (m, r) \<and> send_result_ok inp \<and>
                         send_xcorr_ok inp \<longrightarrow>
                     evs = [SendResult r, SendXcorr m,
                            SendData start_index (end_index - start_index)]))))"
proof (intro conjI impI)
  assume nl: "\<not> located"
  have proc: "process_phase inp (sampling_frequency (FPGA_CLK cfg) (params st)) st1 n t0 =
          ([Truncate n], NextCycle, st1\<lparr>sync := False\<rparr>)"
    using trunc nl by (simp add: process_phase_def)
  show "cycle cfg inp st = (ev1 @ ev2 @ ev3 @ [Truncate n], NextCycle, st1\<lparr>sync := False\<rparr>)"
    using cycle_nondebug [OF front nd pred cap] proc by simp
  have e1: "\<forall>e\<in>set ev1. \<not> is_transmission e"
    using cycle_front_events [OF front] by (auto simp: is_transmission_def)
  have e2: "\<forall>e\<in>set ev2. \<not> is_transmission e"
    using predict_phase_events [OF pred]
    by (auto simp: is_transmission_def is_silent_request_def split: event.splits)
  have e3: "\<forall>e\<in>set ev3. \<not> is_transmission e"
    using capture_phase_events [OF cap] by (auto simp: is_transmission_def)
  show "\<forall>e\<in>set (ev1 @ ev2 @ ev3 @ [Truncate n]). \<not> is_transmission e"
    using e1 e2 e3 by (auto simp: is_transmission_def)
  show "\<forall>inp' st2.
               dispatch_network_stack (micros_to_ticks cfg) (uninit inp') (inbox inp')
                 (st1\<lparr>sync := False\<rparr>) = Go st2 \<and> \<not> debug_stream st2 \<longrightarrow>
               (\<exists>evs. fst (cycle cfg inp' (st1\<lparr>sync := False\<rparr>)) =
                  AcquireSync (duration_samples 2100 (sampling_frequency (FPGA_CLK cfg) (params st1)))
                    (sampling_frequency (FPGA_CLK cfg) (params st1)) # evs)"
  proof (intro allI impI)
    fix inp' :: cycle_input and st2
    assume a: "dispatch_network_stack (micros_to_ticks cfg) (uninit inp') (inbox inp')
                 (st1\<lparr>sync := False\<rparr>) = Go st2 \<and> \<not> debug_stream st2"
    show "\<exists>evs. fst (cycle cfg inp' (st1\<lparr>sync := False\<rparr>)) =
                  AcquireSync (duration_samples 2100 (sampling_frequency (FPGA_CLK cfg) (params st1)))
                    (sampling_frequency (FPGA_CLK cfg) (params st1)) # evs"
      using sync_acquisition_entered [of cfg inp' "st1\<lparr>sync := False\<rparr>" st2] a by simp
  qed
next
  assume l: located
  show "sync (snd (snd (cycle cfg inp st)))"
    using cycle_nondebug [OF front nd pred cap] trunc l
    by (simp add: process_phase_def Let_def split: option.splits prod.splits)
next
  assume l: located and lt: "start_index < end_index"
  let ?xc = "CrossCorrelate start_index (end_index - start_index) (MAX_SAMPLES * 2)"
  let ?fs = "sampling_frequency (FPGA_CLK cfg) (params st)"
  have "\<exists>evs e st'. process_phase inp ?fs st1 n t0 = (Truncate n # ?xc # evs, e, st') \<and>
          (\<forall>m r. cross_correlate_out inp = Some (m, r) \<and> send_result_ok inp \<and>
                         send_xcorr_ok inp \<longrightarrow>
                     evs = [SendResult r, SendXcorr m,
                            SendData start_index (end_index - start_index)])"
    using trunc l lt
    by (cases "cross_correlate_out inp") (auto simp: process_phase_def Let_def)
  then obtain evs e st' where
    p: "process_phase inp ?fs st1 n t0 = (Truncate n # ?xc # evs, e, st')" and
    q: "\<forall>m r. cross_correlate_out inp = Some (m, r) \<and> send_result_ok inp \<and>
                         send_xcorr_ok inp \<longrightarrow>
                     evs = [SendResult r, SendXcorr m,
                            SendData start_index (end_index - start_index)]"
    by blast
  have "fst (cycle cfg inp st) = ev1 @ ev2 @ ev3 @ Truncate n # ?xc # evs"
    using cycle_nondebug [OF front nd pred cap] p by simp
  then show "\<exists>evs. fst (cycle cfg inp st) = ev1 @ ev2 @ ev3 @ Truncate n # ?xc # evs \<and>
                  (\<forall>m r. cross_correlate_out inp = Some (m, r) \<and> send_result_ok inp \<and>
                         send_xcorr_ok inp \<longrightarrow>
                     evs = [SendResult r, SendXcorr m,
                            SendData start_index (end_index - start_index)])"
    using q by blast
qed

text \<open>The theorem at the example iteration, with and without a located ping.\<close>

theorem truncate_outcome_witness:
  "cycle sample_config lost_input sample_state =
     ([AcquireSync 10500000 5000000, SilentRequest [57, 7, 0, 0, 100, 0, 0, 0],
       Record 1500032, Normalize 1500032, Truncate 1500032],
      NextCycle, sample_state\<lparr>previous_ping_tick := 1000000000, sync := False\<rparr>) \<and>
   (\<exists>evs. fst (cycle sample_config sample_input
                 (sample_state\<lparr>previous_ping_tick := 1000000000, sync := False\<rparr>)) =
            AcquireSync 10500000 5000000 # evs) \<and>
   sync (snd (snd (cycle sample_config sample_input sample_state))) \<and>
   fst (cycle sample_config sample_input sample_state) =
     [AcquireSync 10500000 5000000, SilentRequest [57, 7, 0, 0, 100, 0, 0, 0],
      Record 1500032, Normalize 1500032, Truncate 1500032,
      CrossCorrelate 250000 768 198000000, SendResult [30000, 60000, 90000],
      SendXcorr 1000, SendData 250000 768]"
proof -
  let ?s1 = "sample_state\<lparr>previous_ping_tick := 1000000000, sync := True\<rparr>"
  let ?s2 = "sample_state\<lparr>previous_ping_tick := 1000000000, sync := False\<rparr>"
  have lf: "cycle_front sample_config lost_input sample_state =
              ([AcquireSync 10500000 5000000], Go ?s1)"
    by (simp add: lost_input_def truncate_out_irrelevant sample_front)
  have lp: "predict_phase sample_config lost_input ?s1 =
              ([SilentRequest [57, 7, 0, 0, 100, 0, 0, 0]], Go [2316668000])"
    by (simp add: lost_input_def truncate_out_irrelevant sample_predict)
  have lc: "capture_phase lost_input
              (sampling_frequency (FPGA_CLK sample_config) (params sample_state)) ?s1 [2316668000] =
              ([Record 1500032, Normalize 1500032], Go (1500032, 2316668000))"
    by (simp add: lost_input_def truncate_out_irrelevant sample_capture_fs)
  have lt: "truncate_out lost_input = Some (False, 0, 0)"
    by (simp add: lost_input_def)
  have st: "truncate_out sample_input = Some (True, 250000, 250768)"
    by (simp add: sample_input_def)
  note lost = truncate_outcome [OF lf sample_synced_not_debug lp lc lt]
  note found = truncate_outcome [OF sample_front sample_synced_not_debug sample_predict
                 sample_capture_fs st]
  have a: "cycle sample_config lost_input sample_state =
     ([AcquireSync 10500000 5000000, SilentRequest [57, 7, 0, 0, 100, 0, 0, 0],
       Record 1500032, Normalize 1500032, Truncate 1500032],
      NextCycle, ?s2)"
    using lost by simp
  have d: "dispatch_network_stack (micros_to_ticks sample_config) (uninit sample_input)
             (inbox sample_input) ?s2 = Go ?s2 \<and> \<not> debug_stream ?s2"
    by (simp add: sample_input_def sample_state_def startup_state_def)
  have "\<exists>evs. fst (cycle sample_config sample_input (?s1\<lparr>sync := False\<rparr>)) =
          AcquireSync (duration_samples 2100 (sampling_frequency (FPGA_CLK sample_config) (params ?s1)))
            (sampling_frequency (FPGA_CLK sample_config) (params ?s1)) # evs"
    using lost [THEN conjunct1, rule_format, THEN conjunct2, THEN conjunct2, rule_format,
                of sample_input ?s2] d
    by simp
  then have b: "\<exists>evs. fst (cycle sample_config sample_input ?s2) =
            AcquireSync 10500000 5000000 # evs"
    using sample_fs by (simp add: duration_samples_def)
  have c: "sync (snd (snd (cycle sample_config sample_input sample_state)))"
    using found by simp
  have xc: "cross_correlate_out sample_input = Some (1000, [30000, 60000, 90000]) \<and>
            send_result_ok sample_input \<and> send_xcorr_ok sample_input"
    by (simp add: sample_input_def)
  obtain evs where e1: "fst (cycle sample_config sample_input sample_state) =
      [AcquireSync 10500000 5000000] @ [SilentRequest [57, 7, 0, 0, 100, 0, 0, 0]] @
      [Record 1500032, Normalize 1500032] @ Truncate 1500032 #
        CrossCorrelate 250000 (250768 - 250000) (MAX_SAMPLES * 2) # evs"
    and e2: "\<forall>m r. cross_correlate_out sample_input = Some (m, r) \<and> send_result_ok sample_input \<and>
                 send_xcorr_ok sample_input \<longrightarrow>
             evs = [SendResult r, SendXcorr m, SendData 250000 (250768 - 250000)]"
    using found by auto
  have "evs = [SendResult [30000, 60000, 90000], SendXcorr 1000, SendData 250000 (250768 - 250000)]"
    using e2 xc by blast
  then have e: "fst (cycle sample_config sample_input sample_state) =
     [AcquireSync 10500000 5000000, SilentRequest [57, 7, 0, 0, 100, 0, 0, 0],
      Record 1500032, Normalize 1500032, Truncate 1500032,
      CrossCorrelate 250000 768 198000000, SendResult [30000, 60000, 90000],
      SendXcorr 1000, SendData 250000 768]"
    using e1 by (simp add: MAX_SAMPLES_def)
  show ?thesis using a b c e by blast
qed

subsection \<open>Sample-count alignment (C2)\<close>

text \<open>Where the \<open>record\<close> and \<open>acquire_sync\<close> calls of an iteration get their counts.\<close>

lemma record_event_length:
  assumes e: "Record n \<in> set (fst (cycle cfg inp st))"
  shows "\<exists>ev1 st1. cycle_front cfg inp st = (ev1, Go st1) \<and>
           n = capture_length (debug_stream st1) (sampling_frequency (FPGA_CLK cfg) (params st))
                 (samples_per_packet (params st1)) (adc_samples_per_packet inp)"
proof -
  let ?fs = "sampling_frequency (FPGA_CLK cfg) (params st)"
  obtain ev1 r1 where f: "cycle_front cfg inp st = (ev1, r1)"
    by (cases "cycle_front cfg inp st")
  have n1: "Record n \<notin> set ev1" using cycle_front_events [OF f] by auto
  show ?thesis
  proof (cases r1)
    case (Stop e1 s1)
    then have "fst (cycle cfg inp st) = ev1" using f by (simp add: cycle_def)
    then show ?thesis using e n1 by simp
  next
    case (Go st1)
    obtain ev2 r2 where p: "predict_phase cfg inp st1 = (ev2, r2)"
      by (cases "predict_phase cfg inp st1")
    have n2: "Record n \<notin> set ev2"
      using predict_phase_events [OF p] by (auto simp: is_silent_request_def)
    show ?thesis
    proof (cases r2)
      case (Stop e2 s2)
      then have "fst (cycle cfg inp st) = ev1 @ ev2" using f Go p by (simp add: cycle_def)
      then show ?thesis using e n1 n2 by simp
    next
      case clk: (Go clk)
      obtain ev3 r3 where c: "capture_phase inp ?fs st1 clk = (ev3, r3)"
        by (cases "capture_phase inp ?fs st1 clk")
      have in3: "Record n \<in> set ev3 \<Longrightarrow> ?thesis"
        using capture_phase_events [OF c] f Go by auto
      show ?thesis
      proof (cases r3)
        case (Stop e3 s3)
        then have "fst (cycle cfg inp st) = ev1 @ ev2 @ ev3"
          using f Go p clk c by (simp add: cycle_def)
        then show ?thesis using e n1 n2 in3 by auto
      next
        case nt: (Go nt)
        obtain m t0 where nt': "nt = (m, t0)" by (cases nt)
        show ?thesis
        proof (cases "debug_stream st1")
          case True
          then have "fst (cycle cfg inp st) = ev1 @ ev2 @ ev3 @ [SendData 0 m]"
            using f Go p clk c nt nt' by (simp add: cycle_def debug_dump_def)
          then show ?thesis using e n1 n2 in3 by auto
        next
          case False
          obtain ev4 e4 s4 where pr: "process_phase inp ?fs st1 m t0 = (ev4, e4, s4)"
            by (cases "process_phase inp ?fs st1 m t0")
          have n4: "Record n \<notin> set ev4"
            using pr by (auto simp: process_phase_def Let_def split: option.splits if_splits)
          have "fst (cycle cfg inp st) = ev1 @ ev2 @ ev3 @ ev4"
            using False f Go p clk c nt nt' pr by (simp add: cycle_def)
          then show ?thesis using e n1 n2 n4 in3 by auto
        qed
      qed
    qed
  qed
qed

lemma acquire_sync_event_length:
  assumes e: "AcquireSync n fs \<in> set (fst (cycle cfg inp st))"
  shows "fs = sampling_frequency (FPGA_CLK cfg) (params st) \<and> n = duration_samples 2100 fs"
proof -
  let ?fs = "sampling_frequency (FPGA_CLK cfg) (params st)"
  obtain ev1 r1 where f: "cycle_front cfg inp st = (ev1, r1)"
    by (cases "cycle_front cfg inp st")
  have in1: "AcquireSync n fs \<in> set ev1 \<Longrightarrow> ?thesis" using cycle_front_events [OF f] by auto
  show ?thesis
  proof (cases r1)
    case (Stop e1 s1)
    then have "fst (cycle cfg inp st) = ev1" using f by (simp add: cycle_def)
    then show ?thesis using e in1 by simp
  next
    case (Go st1)
    obtain ev2 r2 where p: "predict_phase cfg inp st1 = (ev2, r2)"
      by (cases "predict_phase cfg inp st1")
    have n2: "AcquireSync n fs \<notin> set ev2"
      using predict_phase_events [OF p] by (auto simp: is_silent_request_def)
    show ?thesis
    proof (cases r2)
      case (Stop e2 s2)
      then have "fst (cycle cfg inp st) = ev1 @ ev2" using f Go p by (simp add: cycle_def)
      then show ?thesis using e in1 n2 by auto
    next
      case clk: (Go clk)
      obtain ev3 r3 where c: "capture_phase inp ?fs st1 clk = (ev3, r3)"
        by (cases "capture_phase inp ?fs st1 clk")
      have n3: "AcquireSync n fs \<notin> set ev3" using capture_phase_events [OF c] by auto
      show ?thesis
      proof (cases r3)
        case (Stop e3 s3)
        then have "fst (cycle cfg inp st) = ev1 @ ev2 @ ev3"
          using f Go p clk c by (simp add: cycle_def)
        then show ?thesis using e in1 n2 n3 by auto
      next
        case nt: (Go nt)
        obtain m t0 where nt': "nt = (m, t0)" by (cases nt)
        show ?thesis
        proof (cases "debug_stream st1")
          case True
          then have "fst (cycle cfg inp st) = ev1 @ ev2 @ ev3 @ [SendData 0 m]"
            using f Go p clk c nt nt' by (simp add: cycle_def debug_dump_def)
          then show ?thesis using e in1 n2 n3 by auto
        next
          case False
          obtain ev4 e4 s4 where pr: "process_phase inp ?fs st1 m t0 = (ev4, e4, s4)"
            by (cases "process_phase inp ?fs st1 m t0")
          have n4: "AcquireSync n fs \<notin> set ev4"
            using pr by (auto simp: process_phase_def Let_def split: option.splits if_splits)
          have "fst (cycle cfg inp st) = ev1 @ ev2 @ ev3 @ ev4"
            using False f Go p clk c nt nt' pr by (simp add: cycle_def)
          then show ?thesis using e in1 n2 n3 n4 by auto
        qed
      qed
    qed
  qed
qed


text \<open>The counts are positive, and rounding up reaches a multiple.\<close>

lemma unat_duration_samples:
  "ms * unat fs div 1000 < 2 ^ 32 \<Longrightarrow> unat (duration_samples ms fs) = ms * unat fs div 1000"
  by (simp add: duration_samples_def unat_of_nat)

lemma clamp_to_buffer_positive:
  assumes spp: "0 < spp" and fits: "unat spp \<le> MAX_SAMPLES" and n: "0 < n"
  shows "0 < clamp_to_buffer n spp"
proof (cases "n > of_nat MAX_SAMPLES")
  case False
  then show ?thesis using n by (simp add: clamp_to_buffer_def)
next
  case True
  let ?M = "of_nat MAX_SAMPLES :: uint32_t"
  have s: "0 < unat spp" using spp by (simp add: word_less_nat_alt)
  have "unat (?M mod spp) \<le> unat ?M" by (simp add: unat_mod)
  then have le: "?M mod spp \<le> ?M" by (simp only: word_le_nat_alt)
  have u: "unat (?M - ?M mod spp) = unat ?M - unat ?M mod unat spp"
    using le by (simp add: unat_sub unat_mod)
  have "unat ?M mod unat spp < unat spp" using s by simp
  then have "unat ?M mod unat spp < unat ?M" using fits by (simp add: unat_MAX_SAMPLES MAX_SAMPLES_def)
  then have "0 < unat (?M - ?M mod spp)" using u by simp
  then have "0 < ?M - ?M mod spp" by (simp add: word_less_nat_alt)
  then show ?thesis using True by (simp add: clamp_to_buffer_def)
qed

lemma capture_length_positive:
  assumes spp: "0 < spp" and fits: "unat spp \<le> MAX_SAMPLES"
    and n: "0 < unat (duration_samples (if dbg then 2100 else 300) fs)"
    and room: "unat (duration_samples (if dbg then 2100 else 300) fs) + unat spp < 2 ^ 32"
  shows "0 < capture_length dbg fs spp spp"
proof -
  let ?n = "duration_samples (if dbg then 2100 else 300) fs"
  have "0 < unat (round_up_to_packet ?n spp)"
    using round_up_to_packet_bounds(1) [OF spp room] n by simp
  then have "0 < round_up_to_packet ?n spp" by (simp add: word_less_nat_alt)
  then show ?thesis
    unfolding capture_length_def using spp fits by (intro clamp_to_buffer_positive)
qed

lemma acquire_sync_dma_length_multiple:
  assumes "0 < spp" and "0 < n"
  shows "0 < acquire_sync_dma_length n spp"
    and "acquire_sync_dma_length n spp mod unat spp = 0"
    and "unat n \<le> acquire_sync_dma_length n spp"
    and "acquire_sync_dma_length n spp < unat n + unat spp"
proof -
  have s: "0 < unat spp" and m: "0 < unat n" using assms by (simp_all add: word_less_nat_alt)
  have "unat spp \<le> unat n + unat spp - 1" using m by simp
  then have "1 \<le> (unat n + unat spp - 1) div unat spp"
    using s by (simp add: Suc_le_eq div_greater_zero_iff)
  then show "0 < acquire_sync_dma_length n spp"
    using s by (simp add: acquire_sync_dma_length_def)
  show "acquire_sync_dma_length n spp mod unat spp = 0"
    by (simp add: acquire_sync_dma_length_def)
  let ?a = "unat n + unat spp - 1"
  have dm: "?a = ?a div unat spp * unat spp + ?a mod unat spp"
    by simp
  have lt: "?a mod unat spp < unat spp" using s by simp
  show "unat n \<le> acquire_sync_dma_length n spp"
    unfolding acquire_sync_dma_length_def using dm lt s by linarith
  show "acquire_sync_dma_length n spp < unat n + unat spp"
    unfolding acquire_sync_dma_length_def using dm s m by linarith
qed

lemma acquire_sync_dma_length_example: "acquire_sync_dma_length 10500000 128 = 10500096"
  by (simp add: acquire_sync_dma_length_def)


text \<open>
  C2. For every call to \<open>record\<close>, the one of line 340 and the one of each iteration, the
  number of samples asked for is a positive multiple of \<open>samples_per_packet\<close>, and so is
  the length of the acquisition made inside \<open>acquire_sync\<close>. This holds with a non-zero
  \<open>samples_per_packet\<close> that fits the buffer and equals the ADC register it was copied
  from, and a sampling frequency at which 300 ms give at least one sample and 2.1 s plus
  one packet stay below \<open>2^32\<close>.
\<close>

theorem acquisition_lengths_aligned:
  assumes spp: "0 < samples_per_packet (params st)"
    and reg: "adc_samples_per_packet inp = samples_per_packet (params st)"
    and fits: "unat (samples_per_packet (params st)) \<le> MAX_SAMPLES"
    and rate: "0 < 300 * unat (sampling_frequency (FPGA_CLK cfg) (params st)) div 1000"
    and room: "2100 * unat (sampling_frequency (FPGA_CLK cfg) (params st)) div 1000
                 + unat (samples_per_packet (params st)) < 2 ^ 32"
  shows "0 < startup_record_length (adc_samples_per_packet inp) \<and>
         startup_record_length (adc_samples_per_packet inp) mod samples_per_packet (params st) = 0 \<and>
         (\<forall>n. Record n \<in> set (fst (cycle cfg inp st)) \<longrightarrow>
            0 < n \<and> n mod samples_per_packet (params st) = 0 \<and>
            (\<exists>k>0. unat n = k * unat (samples_per_packet (params st)))) \<and>
         (\<forall>n fs. AcquireSync n fs \<in> set (fst (cycle cfg inp st)) \<longrightarrow>
            0 < acquire_sync_dma_length n (samples_per_packet (params st)) \<and>
            acquire_sync_dma_length n (samples_per_packet (params st))
              mod unat (samples_per_packet (params st)) = 0 \<and>
            unat n \<le> acquire_sync_dma_length n (samples_per_packet (params st)))"
proof (intro conjI allI impI)
  let ?spp = "samples_per_packet (params st)"
  let ?fs = "sampling_frequency (FPGA_CLK cfg) (params st)"
  have le: "300 * unat ?fs div 1000 \<le> 2100 * unat ?fs div 1000"
    by (intro div_le_mono) simp
  have u300: "unat (duration_samples 300 ?fs) = 300 * unat ?fs div 1000"
    using le room by (intro unat_duration_samples) simp
  have u2100: "unat (duration_samples 2100 ?fs) = 2100 * unat ?fs div 1000"
    using room by (intro unat_duration_samples) simp
  show "0 < startup_record_length (adc_samples_per_packet inp)"
    using spp reg by (simp add: startup_record_length_def)
  show "startup_record_length (adc_samples_per_packet inp) mod ?spp = 0"
    using reg by (simp add: startup_record_length_def)
  {
    fix n
    assume "Record n \<in> set (fst (cycle cfg inp st))"
    from record_event_length [OF this] obtain ev1 st1 where
      f: "cycle_front cfg inp st = (ev1, Go st1)" and
      n: "n = capture_length (debug_stream st1) ?fs (samples_per_packet (params st1))
                (adc_samples_per_packet inp)"
      by blast
    have n': "n = capture_length (debug_stream st1) ?fs ?spp ?spp"
      using n reg cycle_front_spp [OF f] by simp
    have pos: "0 < unat (duration_samples (if debug_stream st1 then 2100 else 300) ?fs)"
      using u300 u2100 rate le by simp
    have rm: "unat (duration_samples (if debug_stream st1 then 2100 else 300) ?fs) + unat ?spp < 2 ^ 32"
      using u300 u2100 room le by simp
    show "0 < n" unfolding n' using spp fits pos rm by (rule capture_length_positive)
    then have un: "0 < unat n" by (simp add: word_less_nat_alt)
    show al: "n mod ?spp = 0" unfolding n' using spp rm by (rule capture_length_aligned)
    then have "unat n mod unat ?spp = 0" by (metis unat_mod unat_0)
    then have "unat ?spp dvd unat n" by (simp add: dvd_eq_mod_eq_0)
    then have eq: "unat n = unat n div unat ?spp * unat ?spp" by simp
    then have "0 < unat n div unat ?spp" using un by (metis mult_zero_left neq0_conv)
    then show "\<exists>k>0. unat n = k * unat ?spp" using eq by blast
  }
  {
    fix n fs
    assume "AcquireSync n fs \<in> set (fst (cycle cfg inp st))"
    from acquire_sync_event_length [OF this] have n: "n = duration_samples 2100 ?fs" by simp
    have "0 < unat n" using n u2100 rate le by simp
    then have pos: "0 < n" by (simp add: word_less_nat_alt)
    show "0 < acquire_sync_dma_length n ?spp"
      using spp pos by (rule acquire_sync_dma_length_multiple)
    show "acquire_sync_dma_length n ?spp mod unat ?spp = 0"
      using spp pos by (rule acquire_sync_dma_length_multiple)
    show "unat n \<le> acquire_sync_dma_length n ?spp"
      using spp pos by (rule acquire_sync_dma_length_multiple)
  }
qed

text \<open>The theorem at the example iteration: 128 samples per packet at 5 MHz.\<close>

theorem acquisition_lengths_aligned_witness:
  "0 < samples_per_packet (params sample_state) \<and>
   adc_samples_per_packet sample_input = samples_per_packet (params sample_state) \<and>
   Record 1500032 \<in> set (fst (cycle sample_config sample_input sample_state)) \<and>
   (1500032 :: uint32_t) mod samples_per_packet (params sample_state) = 0 \<and>
   0 < (1500032 :: uint32_t) \<and>
   AcquireSync 10500000 5000000 \<in> set (fst (cycle sample_config sample_input sample_state)) \<and>
   0 < acquire_sync_dma_length 10500000 (samples_per_packet (params sample_state)) \<and>
   acquire_sync_dma_length 10500000 (samples_per_packet (params sample_state))
     mod unat (samples_per_packet (params sample_state)) = 0 \<and>
   startup_record_length (adc_samples_per_packet sample_input)
     mod samples_per_packet (params sample_state) = 0"
proof -
  have spp: "samples_per_packet (params sample_state) = 128"
    by (simp add: sample_state_def startup_state_def)
  have h1: "0 < samples_per_packet (params sample_state)" by (simp add: spp)
  have h2: "adc_samples_per_packet sample_input = samples_per_packet (params sample_state)"
    by (simp add: spp sample_input_def)
  have h3: "unat (samples_per_packet (params sample_state)) \<le> MAX_SAMPLES"
    by (simp add: spp MAX_SAMPLES_def)
  have h4: "0 < 300 * unat (sampling_frequency (FPGA_CLK sample_config) (params sample_state)) div 1000"
    by (simp add: sample_fs)
  have h5: "2100 * unat (sampling_frequency (FPGA_CLK sample_config) (params sample_state)) div 1000
              + unat (samples_per_packet (params sample_state)) < 2 ^ 32"
    by (simp add: sample_fs spp)
  note inst = acquisition_lengths_aligned [OF h1 h2 h3 h4 h5]
  have r: "Record 1500032 \<in> set (fst (cycle sample_config sample_input sample_state))"
    and a: "AcquireSync 10500000 5000000 \<in> set (fst (cycle sample_config sample_input sample_state))"
    by (simp_all add: sample_cycle)
  have c1: "(1500032 :: uint32_t) mod samples_per_packet (params sample_state) = 0 \<and>
       0 < (1500032 :: uint32_t)"
    using inst r by blast
  have c2: "0 < acquire_sync_dma_length 10500000 (samples_per_packet (params sample_state)) \<and>
     acquire_sync_dma_length 10500000 (samples_per_packet (params sample_state))
       mod unat (samples_per_packet (params sample_state)) = 0"
    using inst a by blast
  have c3: "startup_record_length (adc_samples_per_packet sample_input)
     mod samples_per_packet (params sample_state) = 0"
    using inst by blast
  show ?thesis using h1 h2 r a c1 c2 c3 by blast
qed

subsection \<open>The tick of the located ping (C3)\<close>

text \<open>A 32-bit count widened to \<open>tick_t\<close> keeps its value.\<close>

lemma unat_ucast_tick: "unat (ucast w :: tick_t) = unat w" for w :: uint32_t
proof -
  have "unat w < 2 ^ 32" using unsigned_less [of w] by simp
  then have "unat w < 2 ^ 64" by simp
  then show ?thesis by (simp add: unsigned_ucast_eq take_bit_nat_eq_self)
qed

lemma ping_offset_5MHz:
  assumes "idx * 66 < 2 ^ 32"
  shows "unat (ping_offset (of_nat idx) 5000000) = idx * 66"
proof -
  have q: "(of_nat CPU_CLOCK_HZ :: uint32_t) div 5000000 = 66"
    by (simp add: CPU_CLOCK_HZ_def ARM_CLK_PLL_def)
  have "(of_nat idx :: uint32_t) * 66 = of_nat (idx * 66)" by simp
  then have "unat ((of_nat idx :: uint32_t) * 66) = idx * 66"
    using assms by (simp only: unat_of_nat) simp
  then show ?thesis
    by (simp add: ping_offset_def q unat_ucast_tick)
qed


text \<open>
  At 5 MHz the quotient \<open>CPU_CLOCK_HZ / sampling_frequency\<close> is 66, while a sample period
  lasts 66.667 ticks: from sample 100 on, the offset of line 494 is more than one sample
  period short of the time the samples took.
\<close>

lemma ping_offset_error_5MHz:
  assumes "100 \<le> idx" and "idx * 66 < 2 ^ 32"
  shows "sample_period 5000000 <
           ideal_offset idx 5000000 - real (unat (ping_offset (of_nat idx) 5000000))"
proof -
  have "real idx * 333333500 / 5000000 - real idx * 66 = real idx * (3333500 / 5000000)"
    by (simp add: field_simps)
  moreover have "333333500 / 5000000 < real idx * (3333500 / 5000000)"
    using assms(1) by simp
  ultimately show ?thesis
    by (simp add: ping_offset_5MHz [OF assms(2)] ideal_offset_def sample_period_def
          CPU_CLOCK_HZ_def ARM_CLK_PLL_def)
qed

text \<open>
  C3. Claim: \<open>sample_start_tick + start_index * (CPU_CLOCK_HZ / sampling_frequency)\<close> is the
  acquisition tick of sample \<open>start_index\<close> to within one sample period, the samples being
  taken one sample period apart from \<open>sample_start_tick\<close> on. In the example iteration
  \<open>start_index\<close> is 250000: the code adds 16500000 ticks, the samples took 16666675 ticks,
  and the difference of 166675 ticks exceeds the sample period of 66.667 ticks.
\<close>

theorem ping_tick_uses_truncated_ratio:
  "previous_ping_tick (snd (snd (cycle sample_config sample_input sample_state))) =
     2316668000 + ping_offset 250000 5000000 \<and>
   unat (ping_offset 250000 5000000) = 16500000 \<and>
   ideal_offset 250000 5000000 = 16666675 \<and>
   sample_period 5000000 < ideal_offset 250000 5000000 - real (unat (ping_offset 250000 5000000))"
  by (simp add: sample_cycle ping_offset_def ideal_offset_def sample_period_def
        CPU_CLOCK_HZ_def ARM_CLK_PLL_def)

subsection \<open>Debug streaming (C4)\<close>

text \<open>
  C4 as stated fails. \<open>debug_stream\<close> is true when the iteration starts; the \<open>debug:0\<close>
  datagram served by the dispatch of line 367 clears it, and the iteration acquires sync,
  requests silent running, truncates and correlates.
\<close>

theorem debug_cleared_at_dispatch_counterexample:
  "debug_stream sample_debug_state \<and>
   fst (cycle sample_config debug_off_input sample_debug_state) =
     [AcquireSync 10500000 5000000, SilentRequest [57, 7, 0, 0, 100, 0, 0, 0],
      Record 1500032, Normalize 1500032,
      Truncate 1500032, CrossCorrelate 250000 768 198000000, SendResult [30000, 60000, 90000],
      SendXcorr 1000, SendData 250000 768]"
proof -
  have "debug_stream sample_debug_state" by (simp add: sample_debug_state_def)
  then show ?thesis by (simp add: debug_off_cycle)
qed

text \<open>
  C4, amended. Whenever \<open>debug_stream\<close> is true after the iteration has served its pending
  datagrams (line 367), the iteration makes no call other than \<open>record\<close>, \<open>normalize\<close>,
  \<open>filter\<close> (when enabled) and one \<open>send_data\<close> of the whole buffer on the data-stream
  socket: no sync acquisition, no silent-running request or wait, no \<open>truncate\<close>, no
  \<open>cross_correlate\<close>. The buffer has \<open>n\<close> samples, 2.1 s worth rounded up to whole
  packets, and at least 2.1 s worth whenever that fits \<open>MAX_SAMPLES\<close>.
\<close>

theorem debug_cycle_streams_only:
  assumes disp: "dispatch_network_stack (micros_to_ticks cfg) (uninit inp) (inbox inp) st = Go st1"
    and dbg: "debug_stream st1"
    and fs: "fs = sampling_frequency (FPGA_CLK cfg) (params st)"
    and n: "n = capture_length True fs (samples_per_packet (params st1)) (adc_samples_per_packet inp)"
  shows "\<exists>evs e. cycle cfg inp st = (evs, e, st1) \<and>
           set evs \<subseteq> {Record n, Normalize n, Filter n, SendData 0 n} \<and>
           predict_phase cfg inp st1 = ([], Go (clock inp)) \<and>
           (clock inp \<noteq> [] \<and> record_ok inp \<and> normalize_ok inp \<and>
            (filter_on (params st1) \<longrightarrow> filter_ok inp) \<longrightarrow>
              evs = [Record n, Normalize n] @ (if filter_on (params st1) then [Filter n] else [])
                      @ [SendData 0 n] \<and>
              e = (if send_data_ok inp then NextCycle else GoFailed)) \<and>
           (0 < samples_per_packet (params st1) \<and>
            unat (duration_samples 2100 fs) + unat (samples_per_packet (params st1)) \<le> MAX_SAMPLES \<longrightarrow>
              unat (duration_samples 2100 fs) \<le> unat n)"
proof -
  have front: "cycle_front cfg inp st = ([], Go st1)"
    using disp dbg by (rule debug_cycle_front)
  have pred: "predict_phase cfg inp st1 = ([], Go (clock inp))"
    using dbg by (simp add: predict_phase_def)
  have window: "0 < samples_per_packet (params st1) \<and>
            unat (duration_samples 2100 fs) + unat (samples_per_packet (params st1)) \<le> MAX_SAMPLES \<longrightarrow>
              unat (duration_samples 2100 fs) \<le> unat n"
    unfolding n using capture_length_full_window by blast
  show ?thesis
  proof (cases "clock inp")
    case Nil
    then have "cycle cfg inp st = ([], OutOfInput, st1)"
      using front pred dbg by (simp add: cycle_def capture_phase_def Let_def)
    then show ?thesis using pred window Nil by simp
  next
    case (Cons t0 clk)
    have cap: "capture_phase inp fs st1 (clock inp) =
      (if \<not> record_ok inp then ([Record n], Stop GoFailed st1)
       else if \<not> normalize_ok inp then ([Record n, Normalize n], Stop GoFailed st1)
       else if filter_on (params st1) then
         ([Record n, Normalize n, Filter n], if filter_ok inp then Go (n, t0) else Stop GoFailed st1)
       else ([Record n, Normalize n], Go (n, t0)))"
      using Cons dbg n by (simp add: capture_phase_def Let_def)
    have cyc: "cycle cfg inp st =
      (case capture_phase inp fs st1 (clock inp) of
         (ev3, Stop e st') \<Rightarrow> (ev3, e, st')
       | (ev3, Go (num_samples, sample_start_tick)) \<Rightarrow>
           (ev3 @ [SendData 0 num_samples], if send_data_ok inp then NextCycle else GoFailed, st1))"
      using front pred dbg fs
      by (simp add: cycle_def debug_dump_def split: prod.splits res.splits)
    show ?thesis
      unfolding cyc cap using pred window Cons by auto
  qed
qed

text \<open>The theorem at the example input, started with \<open>debug_stream\<close> set.\<close>

theorem debug_cycle_streams_only_witness:
  "debug_stream sample_debug_state \<and>
   cycle sample_config sample_input sample_debug_state =
     ([Record 10500096, Normalize 10500096, SendData 0 10500096], NextCycle, sample_debug_state) \<and>
   unat (duration_samples 2100 5000000) \<le> unat (10500096 :: uint32_t)"
proof -
  have d: "dispatch_network_stack (micros_to_ticks sample_config) (uninit sample_input)
             (inbox sample_input) sample_debug_state = Go sample_debug_state"
    by (simp add: sample_input_def)
  have g: "debug_stream sample_debug_state" by (simp add: sample_debug_state_def)
  have f: "(5000000 :: uint32_t) = sampling_frequency (FPGA_CLK sample_config) (params sample_debug_state)"
    by (simp add: sampling_frequency_def sample_config_def sample_debug_state_def
          sample_state_def startup_state_def)
  have n: "(10500096 :: uint32_t) = capture_length True 5000000
             (samples_per_packet (params sample_debug_state)) (adc_samples_per_packet sample_input)"
    by (simp add: capture_length_def clamp_to_buffer_def round_up_to_packet_def
          duration_samples_def MAX_SAMPLES_def sample_input_def sample_debug_state_def
          sample_state_def startup_state_def)
  have ok: "clock sample_input \<noteq> [] \<and> record_ok sample_input \<and> normalize_ok sample_input \<and>
            send_data_ok sample_input \<and> \<not> filter_on (params sample_debug_state)"
    by (simp add: sample_input_def sample_debug_state_def sample_state_def startup_state_def)
  have fit: "0 < samples_per_packet (params sample_debug_state) \<and>
             unat (duration_samples 2100 5000000) + unat (samples_per_packet (params sample_debug_state))
               \<le> MAX_SAMPLES"
    by (simp add: duration_samples_def MAX_SAMPLES_def sample_debug_state_def sample_state_def
          startup_state_def)
  from debug_cycle_streams_only [OF d g f n] obtain evs e where
    c: "cycle sample_config sample_input sample_debug_state = (evs, e, sample_debug_state)" and
    ev: "clock sample_input \<noteq> [] \<and> record_ok sample_input \<and> normalize_ok sample_input \<and>
         (filter_on (params sample_debug_state) \<longrightarrow> filter_ok sample_input) \<longrightarrow>
           evs = [Record 10500096, Normalize 10500096] @
                 (if filter_on (params sample_debug_state) then [Filter 10500096] else []) @
                 [SendData 0 10500096] \<and>
           e = (if send_data_ok sample_input then NextCycle else GoFailed)" and
    w: "0 < samples_per_packet (params sample_debug_state) \<and>
        unat (duration_samples 2100 5000000) + unat (samples_per_packet (params sample_debug_state))
          \<le> MAX_SAMPLES \<longrightarrow>
        unat (duration_samples 2100 5000000) \<le> unat (10500096 :: uint32_t)"
    by blast
  have "evs = [Record 10500096, Normalize 10500096, SendData 0 10500096] \<and> e = NextCycle"
    using ev ok by simp
  then show ?thesis using c g w fit by blast
qed

subsection \<open>Prediction and silent-running request (C5)\<close>

text \<open>The bytes of the request, and the \<open>int32\<close> values they carry.\<close>

lemma byte_split: "(ucast (ucast w :: 8 word) :: uint32_t) + 256 * drop_bit 8 w = w"
proof -
  have "(ucast (ucast w :: 8 word) :: uint32_t) = take_bit 8 w"
    by (rule bit_word_eqI) (auto simp: bit_simps)
  then have "(ucast (ucast w :: 8 word) :: uint32_t) = w mod 256"
    by (simp add: take_bit_eq_mod)
  moreover have "drop_bit 8 w = w div 256"
    by (simp add: drop_bit_eq_div)
  moreover have "w mod 256 + 256 * (w div 256) = w"
    by (rule mod_mult_div_eq)
  ultimately show ?thesis by (simp only:)
qed

lemma top_byte: "(ucast (ucast (drop_bit 24 w) :: 8 word) :: uint32_t) = drop_bit 24 w"
  by (rule bit_word_eqI) (auto simp: bit_simps dest: bit_imp_le_length)

lemma int32_le_le_bytes32: "int32_le (le_bytes32 w) = w"
proof -
  have a: "drop_bit 8 (drop_bit 8 w) = drop_bit 16 w" "drop_bit 8 (drop_bit 16 w) = drop_bit 24 w"
    by (simp_all add: drop_bit_drop_bit)
  have "int32_le (le_bytes32 w) =
      ucast (ucast w :: 8 word) + 256 * (ucast (ucast (drop_bit 8 w) :: 8 word)
          + 256 * (ucast (ucast (drop_bit 16 w) :: 8 word)
          + 256 * (ucast (ucast (drop_bit 24 w) :: 8 word))))"
    by (simp add: int32_le_def le_bytes32_def)
  also have "\<dots> = ucast (ucast w :: 8 word) + 256 * (ucast (ucast (drop_bit 8 w) :: 8 word)
          + 256 * drop_bit 16 w)"
    using byte_split [of "drop_bit 16 w"] by (simp only: top_byte a)
  also have "\<dots> = ucast (ucast w :: 8 word) + 256 * drop_bit 8 w"
    using byte_split [of "drop_bit 8 w"] by (simp only: a)
  also have "\<dots> = w" by (rule byte_split)
  finally show ?thesis .
qed

lemma le_bytes32_bytes:
  "le_bytes32 w = [ucast w, ucast (drop_bit 8 w), ucast (drop_bit 16 w), ucast (drop_bit 24 w)]"
  by (simp add: le_bytes32_def)

lemma le_bytes32_100: "le_bytes32 100 = [100, 0, 0, 0]"
  by (simp add: le_bytes32_def drop_bit_eq_div)

lemma request_bytes:
  "int32_le (take 4 (le_bytes32 w @ [100, 0, 0, 0])) = w"
  "int32_le (drop 4 (le_bytes32 w @ [100, 0, 0, 0])) = 100"
  "length (le_bytes32 w @ [100, 0, 0, 0]) = 8"
  by (simp_all add: length_le_bytes32 int32_le_le_bytes32) (simp add: int32_le_def)

lemma time_util_values:
  "time_util_ms_to_ticks 50 = 16666675" "time_util_ms_to_ticks 2000 = 666667000"
  "time_util_ms_to_ticks 100 = 33333350"
  "time_util_ticks_to_ms (time_util_ms_to_ticks 100) = 100"
  by (simp_all add: time_util_ms_to_ticks_def time_util_ticks_to_ms_def CPU_CLOCK_HZ_def
        ARM_CLK_PLL_def)

lemma sample_config_time_util:
  "ms_to_ticks sample_config = time_util_ms_to_ticks"
  "ticks_to_ms sample_config = time_util_ticks_to_ms"
  by (simp_all add: sample_config_def fun_eq_iff time_util_ms_to_ticks_def
        time_util_ticks_to_ms_def)


text \<open>
  The prediction phase returns exactly when the request is sent and the readings of the
  clock let both loops leave.
\<close>

lemma fast_forward_exact:
  "k < length clk \<Longrightarrow> \<forall>i<k. clk ! i > p + of_nat i * b - a \<Longrightarrow> clk ! k \<le> p + of_nat k * b - a
     \<Longrightarrow> fast_forward a b clk p = Some (drop (Suc k) clk, p + of_nat k * b)"
proof (induction clk arbitrary: p k)
  case Nil
  then show ?case by simp
next
  case (Cons now clk)
  show ?case
  proof (cases k)
    case 0
    then have "\<not> now > p - a" using Cons.prems(3) by (simp add: not_less)
    then show ?thesis using 0 by simp
  next
    case (Suc k')
    have first: "now > p - a" using Cons.prems(2) Suc by (auto dest: spec [of _ 0])
    have rest: "\<forall>i<k'. clk ! i > (p + b) + of_nat i * b - a"
    proof (intro allI impI)
      fix i assume "i < k'"
      then have "(now # clk) ! Suc i > p + of_nat (Suc i) * b - a"
        using Cons.prems(2) Suc by blast
      then show "clk ! i > (p + b) + of_nat i * b - a" by (simp add: algebra_simps)
    qed
    have last: "clk ! k' \<le> (p + b) + of_nat k' * b - a"
      using Cons.prems(3) Suc by (simp add: algebra_simps)
    have "fast_forward a b clk (p + b) = Some (drop (Suc k') clk, (p + b) + of_nat k' * b)"
      using Cons.prems(1) Suc rest last by (intro Cons.IH) simp_all
    then show ?thesis using first Suc by (simp add: algebra_simps)
  qed
qed

lemma busy_wait_exact:
  "j < length clk \<Longrightarrow> \<forall>i<j. clk ! i < t \<Longrightarrow> t \<le> clk ! j
     \<Longrightarrow> busy_wait t clk = Some (drop (Suc j) clk)"
proof (induction clk arbitrary: j)
  case Nil
  then show ?case by simp
next
  case (Cons now clk)
  show ?case
  proof (cases j)
    case 0
    then have "\<not> now < t" using Cons.prems(3) by (simp add: not_less)
    then show ?thesis using 0 by simp
  next
    case (Suc j')
    have first: "now < t" using Cons.prems(2) Suc by (auto dest: spec [of _ 0])
    have "\<forall>i<j'. clk ! i < t" using Cons.prems(2) Suc by auto
    then have "busy_wait t clk = Some (drop (Suc j') clk)"
      using Cons.prems(1,3) Suc by (intro Cons.IH) simp_all
    then show ?thesis using first Suc by simp
  qed
qed

lemma predict_phase_sent:
  "\<not> debug_stream st \<Longrightarrow> predict_phase cfg inp st = (evs, Go clk) \<Longrightarrow> silent_sent inp"
  by (auto simp: predict_phase_def Let_def split: option.splits list.splits if_splits)

lemma predict_phase_returns:
  assumes nd: "\<not> debug_stream st" and sent: "silent_sent inp"
    and len: "k + 2 + j < length (clock inp)"
    and ff1: "\<forall>i<k. clock inp ! i > previous_ping_tick st + of_nat i * ms_to_ticks cfg 2000
                                      - ms_to_ticks cfg 50"
    and ff2: "clock inp ! k \<le> previous_ping_tick st + of_nat k * ms_to_ticks cfg 2000
                              - ms_to_ticks cfg 50"
    and bw1: "\<forall>i<j. clock inp ! (k + 2 + i) < previous_ping_tick st + of_nat k * ms_to_ticks cfg 2000
                                      - ms_to_ticks cfg 50"
    and bw2: "previous_ping_tick st + of_nat k * ms_to_ticks cfg 2000 - ms_to_ticks cfg 50
             \<le> clock inp ! (k + 2 + j)"
  shows "predict_phase cfg inp st =
           ([SilentRequest
               (request_msg cfg (clock inp ! (k + 1))
                  (previous_ping_tick st + of_nat k * ms_to_ticks cfg 2000 - ms_to_ticks cfg 50)
                  (ms_to_ticks cfg 100))],
            Go (drop (k + 3 + j) (clock inp)))"
proof -
  let ?a = "ms_to_ticks cfg 50" and ?b = "ms_to_ticks cfg 2000" and ?p = "previous_ping_tick st"
  let ?next = "?p + of_nat k * ?b"
  have k: "k < length (clock inp)" using len by simp
  have ff: "fast_forward ?a ?b (clock inp) ?p = Some (drop (Suc k) (clock inp), ?next)"
    using k ff1 ff2 by (rule fast_forward_exact)
  have k1: "Suc k < length (clock inp)" using len by simp
  have c1: "drop (Suc k) (clock inp) = clock inp ! (k + 1) # drop (k + 2) (clock inp)"
    using Cons_nth_drop_Suc [OF k1] by simp
  have j: "j < length (drop (k + 2) (clock inp))" using len by simp
  have nth: "\<And>i. i \<le> j \<Longrightarrow> drop (k + 2) (clock inp) ! i = clock inp ! (k + 2 + i)"
    using len by simp
  have b1: "\<forall>i<j. drop (k + 2) (clock inp) ! i < ?next - ?a" using bw1 nth by simp
  have b2: "?next - ?a \<le> drop (k + 2) (clock inp) ! j" using bw2 nth by simp
  have "Suc j + (k + 2) = k + 3 + j" by simp
  then have dd: "drop (Suc j) (drop (k + 2) (clock inp)) = drop (k + 3 + j) (clock inp)"
    by (simp only: drop_drop)
  have bw: "busy_wait (?next - ?a) (drop (k + 2) (clock inp)) = Some (drop (k + 3 + j) (clock inp))"
    using busy_wait_exact [OF j b1 b2] dd by simp
  show ?thesis
    using nd sent ff c1 bw by (simp add: predict_phase_def Let_def)
qed


text \<open>Where no tick value wraps around, the tests of the loops read as on numbers.\<close>

lemma no_wrap_future:
  fixes p a b c now :: tick_t
  assumes a: "unat a \<le> unat p" and room: "unat p + k * unat b < 2 ^ 64"
    and c: "c \<le> p + of_nat k * b - a"
  shows "unat (p + of_nat k * b) = unat p + k * unat b"
    and "unat c + unat a \<le> unat p + k * unat b"
    and "now \<le> p + of_nat k * b - a \<Longrightarrow>
           unat (p + of_nat k * b - a - now) = unat p + k * unat b - unat a - unat now"
proof -
  have kb: "unat (of_nat k * b) = k * unat b"
  proof (cases "b = 0")
    case True
    then show ?thesis by simp
  next
    case False
    then have "0 < unat b" by (simp add: unat_gt_0)
    then obtain m where m: "unat b = Suc m" by (cases "unat b") simp_all
    have k: "k < 2 ^ 64" using room unfolding m by simp
    have "unat (of_nat k :: tick_t) = k" using k by (simp add: unat_of_nat)
    moreover have "k * unat b < 2 ^ 64" using room by simp
    ultimately show ?thesis by (simp add: unat_word_ariths)
  qed
  show n: "unat (p + of_nat k * b) = unat p + k * unat b"
    using kb room by (simp add: unat_word_ariths)
  have le: "a \<le> p + of_nat k * b" using a n by (simp add: word_le_nat_alt)
  then have s: "unat (p + of_nat k * b - a) = unat p + k * unat b - unat a"
    using n by (simp add: unat_sub)
  have "unat c \<le> unat p + k * unat b - unat a"
    using c s by (simp add: word_le_nat_alt)
  then show "unat c + unat a \<le> unat p + k * unat b" using a by simp
  show "unat (p + of_nat k * b - a - now) = unat p + k * unat b - unat a - unat now"
    if "now \<le> p + of_nat k * b - a"
    using that s by (simp add: unat_sub)
qed

lemma single_silent_request:
  assumes "\<forall>e\<in>set ev1 \<union> set rest. \<not> is_silent_request e"
  shows "length (filter is_silent_request (ev1 @ [SilentRequest msg] @ rest)) = 1"
proof -
  have "filter is_silent_request ev1 = []" "filter is_silent_request rest = []"
    using assms by (auto simp: filter_empty_conv)
  then show ?thesis by (simp add: is_silent_request_def)
qed


text \<open>
  C5. Take an iteration that is not in debug mode at line 416. Its prediction phase
  (lines 416-436) gets to the capture exactly when the request is sent and there are a \<open>k\<close>
  and a \<open>j\<close> as follows. The loop of line 419 adds 2000 ms to \<open>previous_ping_tick\<close> \<open>k\<close>
  times, once for each reading later than 50 ms before the candidate, and stops at the
  first reading that is not: \<open>next_ping_tick\<close> is then at least 50 ms after that reading.
  One datagram of 8 bytes goes to the silent-request socket, before \<open>record\<close>, and no other
  in the iteration. Its first four bytes are the little-endian \<open>int32\<close> \<open>when_ms\<close>, the
  milliseconds from the reading taken inside \<open>request_thruster_shutdown\<close> to 50 ms before
  \<open>next_ping_tick\<close>; its last four bytes are the \<open>int32\<close> 100. The loop of line 435 then
  reads the clock \<open>j + 1\<close> times, until the first reading not earlier than 50 ms before
  \<open>next_ping_tick\<close>. Comparisons and differences are those of the unsigned 64-bit tick
  type; the last conjunct of the first part reads them on numbers where nothing wraps.
\<close>

theorem silent_request_before_capture:
  assumes front: "cycle_front cfg inp st = (ev1, Go st1)"
    and nd: "\<not> debug_stream st1"
    and m2t: "ms_to_ticks cfg = time_util_ms_to_ticks"
    and t2m: "ticks_to_ms cfg = time_util_ticks_to_ms"
  shows "(predict_phase cfg inp st1 = (ev2, Go clk)) =
           (silent_sent inp \<and>
            (\<exists>k j next_ping_tick when_ms msg.
               next_ping_tick = previous_ping_tick st1 + of_nat k * time_util_ms_to_ticks 2000 \<and>
               k + 2 + j < length (clock inp) \<and>
               (\<forall>i<k. clock inp ! i > previous_ping_tick st1 + of_nat i * time_util_ms_to_ticks 2000
                                          - time_util_ms_to_ticks 50) \<and>
               clock inp ! k \<le> next_ping_tick - time_util_ms_to_ticks 50 \<and>
               when_ms = time_util_ticks_to_ms
                           (next_ping_tick - time_util_ms_to_ticks 50 - clock inp ! (k + 1)) \<and>
               msg = [ucast when_ms, ucast (drop_bit 8 when_ms), ucast (drop_bit 16 when_ms),
                      ucast (drop_bit 24 when_ms), 100, 0, 0, 0] \<and>
               int32_le (take 4 msg) = when_ms \<and> int32_le (drop 4 msg) = 100 \<and>
               ev2 = [SilentRequest msg] \<and>
               (\<forall>i<j. clock inp ! (k + 2 + i) < next_ping_tick - time_util_ms_to_ticks 50) \<and>
               next_ping_tick - time_util_ms_to_ticks 50 \<le> clock inp ! (k + 2 + j) \<and>
               clk = drop (k + 3 + j) (clock inp) \<and>
               (unat (time_util_ms_to_ticks 50) \<le> unat (previous_ping_tick st1) \<and>
                unat (previous_ping_tick st1) + k * unat (time_util_ms_to_ticks 2000) < 2 ^ 64 \<longrightarrow>
                  unat next_ping_tick =
                    unat (previous_ping_tick st1) + k * unat (time_util_ms_to_ticks 2000) \<and>
                  unat (clock inp ! k) + unat (time_util_ms_to_ticks 50) \<le> unat next_ping_tick \<and>
                  (clock inp ! (k + 1) \<le> next_ping_tick - time_util_ms_to_ticks 50 \<longrightarrow>
                     unat (next_ping_tick - time_util_ms_to_ticks 50 - clock inp ! (k + 1)) =
                       unat next_ping_tick - unat (time_util_ms_to_ticks 50)
                         - unat (clock inp ! (k + 1)))))) \<and>
         (predict_phase cfg inp st1 = (ev2, Go clk) \<longrightarrow>
            (\<exists>msg rest. ev2 = [SilentRequest msg] \<and> length msg = 8 \<and>
               fst (cycle cfg inp st) = ev1 @ [SilentRequest msg] @ rest \<and>
               (\<forall>e\<in>set ev1 \<union> set rest. \<not> is_silent_request e) \<and>
               length (filter is_silent_request (fst (cycle cfg inp st))) = 1 \<and>
               (rest = [] \<or> (\<exists>n. hd rest = Record n))))"
proof -
  let ?a = "time_util_ms_to_ticks 50" and ?b = "time_util_ms_to_ticks 2000"
  let ?p = "previous_ping_tick st1"
  define W where "W k = time_util_ticks_to_ms (?p + of_nat k * ?b - ?a - clock inp ! (k + 1))" for k
  define M where "M k = le_bytes32 (W k) @ [100, 0, 0, 0]" for k
  have req: "request_msg cfg (clock inp ! (k + 1)) (?p + of_nat k * ?b - ?a) (ms_to_ticks cfg 100) = M k"
    for k
    by (simp add: request_msg_def m2t t2m time_util_values(4) le_bytes32_100 M_def W_def)
  have bytes: "M k = [ucast (W k), ucast (drop_bit 8 (W k)), ucast (drop_bit 16 (W k)),
                      ucast (drop_bit 24 (W k)), 100, 0, 0, 0]" for k
    by (simp add: M_def le_bytes32_bytes)
  have dec: "int32_le (take 4 (M k)) = W k" "int32_le (drop 4 (M k)) = 100" "length (M k) = 8" for k
    unfolding M_def by (rule request_bytes)+
  have nowrap: "unat ?a \<le> unat ?p \<and> unat ?p + k * unat ?b < 2 ^ 64 \<longrightarrow>
                  unat (?p + of_nat k * ?b) = unat ?p + k * unat ?b \<and>
                  unat (clock inp ! k) + unat ?a \<le> unat (?p + of_nat k * ?b) \<and>
                  (clock inp ! (k + 1) \<le> ?p + of_nat k * ?b - ?a \<longrightarrow>
                     unat (?p + of_nat k * ?b - ?a - clock inp ! (k + 1)) =
                       unat (?p + of_nat k * ?b) - unat ?a - unat (clock inp ! (k + 1)))"
    if c: "clock inp ! k \<le> ?p + of_nat k * ?b - ?a" for k
  proof (intro impI)
    assume "unat ?a \<le> unat ?p \<and> unat ?p + k * unat ?b < 2 ^ 64"
    then have a: "unat ?a \<le> unat ?p" and r: "unat ?p + k * unat ?b < 2 ^ 64" by simp_all
    note n1 = no_wrap_future(1) [OF a r c]
    note n2 = no_wrap_future(2) [OF a r c]
    note n3 = no_wrap_future(3) [OF a r c, of "clock inp ! (k + 1)"]
    show "unat (?p + of_nat k * ?b) = unat ?p + k * unat ?b \<and>
                  unat (clock inp ! k) + unat ?a \<le> unat (?p + of_nat k * ?b) \<and>
                  (clock inp ! (k + 1) \<le> ?p + of_nat k * ?b - ?a \<longrightarrow>
                     unat (?p + of_nat k * ?b - ?a - clock inp ! (k + 1)) =
                       unat (?p + of_nat k * ?b) - unat ?a - unat (clock inp ! (k + 1)))"
      using n2 n3 unfolding n1 by blast
  qed
  have iff: "(predict_phase cfg inp st1 = (ev2, Go clk)) =
           (silent_sent inp \<and>
            (\<exists>k j. k + 2 + j < length (clock inp) \<and>
               (\<forall>i<k. clock inp ! i > ?p + of_nat i * ?b - ?a) \<and>
               clock inp ! k \<le> ?p + of_nat k * ?b - ?a \<and>
               ev2 = [SilentRequest (M k)] \<and>
               (\<forall>i<j. clock inp ! (k + 2 + i) < ?p + of_nat k * ?b - ?a) \<and>
               ?p + of_nat k * ?b - ?a \<le> clock inp ! (k + 2 + j) \<and>
               clk = drop (k + 3 + j) (clock inp)))" (is "?L = ?R")
  proof
    assume pred: ?L
    have sent: "silent_sent inp" using nd pred by (rule predict_phase_sent)
    from predict_phase_Go [OF nd pred] show ?R
      using sent req by (simp add: m2t)
  next
    assume r: ?R
    then obtain k j where kj: "k + 2 + j < length (clock inp)"
      "\<forall>i<k. clock inp ! i > ?p + of_nat i * ?b - ?a"
      "clock inp ! k \<le> ?p + of_nat k * ?b - ?a"
      "ev2 = [SilentRequest (M k)]"
      "\<forall>i<j. clock inp ! (k + 2 + i) < ?p + of_nat k * ?b - ?a"
      "?p + of_nat k * ?b - ?a \<le> clock inp ! (k + 2 + j)"
      "clk = drop (k + 3 + j) (clock inp)" and sent: "silent_sent inp"
      by blast
    show ?L
      using predict_phase_returns [of st1 inp k j cfg] nd sent kj req [of k]
      by (simp add: m2t)
  qed
  have first: "(predict_phase cfg inp st1 = (ev2, Go clk)) =
           (silent_sent inp \<and>
            (\<exists>k j next_ping_tick when_ms msg.
               next_ping_tick = ?p + of_nat k * ?b \<and>
               k + 2 + j < length (clock inp) \<and>
               (\<forall>i<k. clock inp ! i > ?p + of_nat i * ?b - ?a) \<and>
               clock inp ! k \<le> next_ping_tick - ?a \<and>
               when_ms = time_util_ticks_to_ms (next_ping_tick - ?a - clock inp ! (k + 1)) \<and>
               msg = [ucast when_ms, ucast (drop_bit 8 when_ms), ucast (drop_bit 16 when_ms),
                      ucast (drop_bit 24 when_ms), 100, 0, 0, 0] \<and>
               int32_le (take 4 msg) = when_ms \<and> int32_le (drop 4 msg) = 100 \<and>
               ev2 = [SilentRequest msg] \<and>
               (\<forall>i<j. clock inp ! (k + 2 + i) < next_ping_tick - ?a) \<and>
               next_ping_tick - ?a \<le> clock inp ! (k + 2 + j) \<and>
               clk = drop (k + 3 + j) (clock inp) \<and>
               (unat ?a \<le> unat ?p \<and> unat ?p + k * unat ?b < 2 ^ 64 \<longrightarrow>
                  unat next_ping_tick = unat ?p + k * unat ?b \<and>
                  unat (clock inp ! k) + unat ?a \<le> unat next_ping_tick \<and>
                  (clock inp ! (k + 1) \<le> next_ping_tick - ?a \<longrightarrow>
                     unat (next_ping_tick - ?a - clock inp ! (k + 1)) =
                       unat next_ping_tick - unat ?a - unat (clock inp ! (k + 1))))))"
    (is "_ = (_ \<and> ?E)")
  proof -
    have "?E = (\<exists>k j. k + 2 + j < length (clock inp) \<and>
               (\<forall>i<k. clock inp ! i > ?p + of_nat i * ?b - ?a) \<and>
               clock inp ! k \<le> ?p + of_nat k * ?b - ?a \<and>
               ev2 = [SilentRequest (M k)] \<and>
               (\<forall>i<j. clock inp ! (k + 2 + i) < ?p + of_nat k * ?b - ?a) \<and>
               ?p + of_nat k * ?b - ?a \<le> clock inp ! (k + 2 + j) \<and>
               clk = drop (k + 3 + j) (clock inp))" (is "_ = ?F")
    proof
      assume ?E
      then obtain k j where
        "k + 2 + j < length (clock inp)"
        "\<forall>i<k. clock inp ! i > ?p + of_nat i * ?b - ?a"
        "clock inp ! k \<le> ?p + of_nat k * ?b - ?a"
        "ev2 = [SilentRequest [ucast (W k), ucast (drop_bit 8 (W k)), ucast (drop_bit 16 (W k)),
                      ucast (drop_bit 24 (W k)), 100, 0, 0, 0]]"
        "\<forall>i<j. clock inp ! (k + 2 + i) < ?p + of_nat k * ?b - ?a"
        "?p + of_nat k * ?b - ?a \<le> clock inp ! (k + 2 + j)"
        "clk = drop (k + 3 + j) (clock inp)"
        unfolding W_def by blast
      then show ?F using bytes by metis
    next
      assume ?F
      then obtain k j where kj: "k + 2 + j < length (clock inp)"
        "\<forall>i<k. clock inp ! i > ?p + of_nat i * ?b - ?a"
        "clock inp ! k \<le> ?p + of_nat k * ?b - ?a"
        "ev2 = [SilentRequest (M k)]"
        "\<forall>i<j. clock inp ! (k + 2 + i) < ?p + of_nat k * ?b - ?a"
        "?p + of_nat k * ?b - ?a \<le> clock inp ! (k + 2 + j)"
        "clk = drop (k + 3 + j) (clock inp)"
        by blast
      show ?E
        apply (rule exI [of _ k], rule exI [of _ j], rule exI [of _ "?p + of_nat k * ?b"],
               rule exI [of _ "W k"], rule exI [of _ "M k"])
        using kj nowrap [OF kj(3)] dec(1,2) [of k] bytes [of k] W_def [of k]
        by blast
    qed
    then show ?thesis using iff by simp
  qed
  have second: "predict_phase cfg inp st1 = (ev2, Go clk) \<longrightarrow>
            (\<exists>msg rest. ev2 = [SilentRequest msg] \<and> length msg = 8 \<and>
               fst (cycle cfg inp st) = ev1 @ [SilentRequest msg] @ rest \<and>
               (\<forall>e\<in>set ev1 \<union> set rest. \<not> is_silent_request e) \<and>
               length (filter is_silent_request (fst (cycle cfg inp st))) = 1 \<and>
               (rest = [] \<or> (\<exists>n. hd rest = Record n)))"
  proof
    assume pred: "predict_phase cfg inp st1 = (ev2, Go clk)"
    then obtain k where ev2: "ev2 = [SilentRequest (M k)]" using iff by blast
    from cycle_after_predict [OF front nd pred] obtain rest where rest:
      "fst (cycle cfg inp st) = ev1 @ ev2 @ rest" "\<forall>e\<in>set rest. \<not> is_silent_request e"
      "rest = [] \<or> (\<exists>n. hd rest = Record n)" by blast
    have ev1: "\<forall>e\<in>set ev1. \<not> is_silent_request e"
      using cycle_front_events [OF front] by (auto simp: is_silent_request_def)
    have none: "\<forall>e\<in>set ev1 \<union> set rest. \<not> is_silent_request e" using ev1 rest(2) by blast
    have cyc: "fst (cycle cfg inp st) = ev1 @ [SilentRequest (M k)] @ rest"
      using rest(1) ev2 by simp
    have one: "length (filter is_silent_request (fst (cycle cfg inp st))) = 1"
      unfolding cyc using none by (rule single_silent_request)
    show "\<exists>msg rest. ev2 = [SilentRequest msg] \<and> length msg = 8 \<and>
               fst (cycle cfg inp st) = ev1 @ [SilentRequest msg] @ rest \<and>
               (\<forall>e\<in>set ev1 \<union> set rest. \<not> is_silent_request e) \<and>
               length (filter is_silent_request (fst (cycle cfg inp st))) = 1 \<and>
               (rest = [] \<or> (\<exists>n. hd rest = Record n))"
      using ev2 dec(3) [of k] cyc none one rest(3) by blast
  qed
  show ?thesis using first second by (rule conjI)
qed

text \<open>The theorem at the example iteration: the request carries 1849 ms and 100 ms.\<close>

theorem silent_request_before_capture_witness:
  "cycle_front sample_config sample_input sample_state =
     ([AcquireSync 10500000 5000000],
      Go (sample_state\<lparr>previous_ping_tick := 1000000000, sync := True\<rparr>)) \<and>
   \<not> debug_stream (sample_state\<lparr>previous_ping_tick := 1000000000, sync := True\<rparr>) \<and>
   ms_to_ticks sample_config = time_util_ms_to_ticks \<and>
   ticks_to_ms sample_config = time_util_ticks_to_ms \<and>
   predict_phase sample_config sample_input
     (sample_state\<lparr>previous_ping_tick := 1000000000, sync := True\<rparr>) =
     ([SilentRequest [57, 7, 0, 0, 100, 0, 0, 0]], Go [2316668000]) \<and>
   silent_sent sample_input \<and>
   int32_le (take 4 [57, 7, 0, 0, 100, 0, 0, 0]) = 1849 \<and>
   int32_le (drop 4 [57, 7, 0, 0, 100, 0, 0, 0]) = 100 \<and>
   (\<exists>rest. fst (cycle sample_config sample_input sample_state) =
        [AcquireSync 10500000 5000000] @ [SilentRequest [57, 7, 0, 0, 100, 0, 0, 0]] @ rest \<and>
      (rest = [] \<or> (\<exists>n. hd rest = Record n))) \<and>
   length (filter is_silent_request (fst (cycle sample_config sample_input sample_state))) = 1"
proof -
  let ?s1 = "sample_state\<lparr>previous_ping_tick := 1000000000, sync := True\<rparr>"
  let ?msg = "[57, 7, 0, 0, 100, 0, 0, 0] :: 8 word list"
  note inst = silent_request_before_capture
                [OF sample_front sample_synced_not_debug sample_config_time_util,
                 of "[SilentRequest ?msg]" "[2316668000]"]
  have "silent_sent sample_input \<and>
        (\<exists>msg. int32_le (drop 4 msg) = 100 \<and> [SilentRequest ?msg] = [SilentRequest msg])"
    using inst [THEN conjunct1] sample_predict by blast
  then have a: "silent_sent sample_input" and b: "int32_le (drop 4 ?msg) = 100"
    by auto
  have "\<exists>msg rest. [SilentRequest ?msg] = [SilentRequest msg] \<and>
          fst (cycle sample_config sample_input sample_state) =
            [AcquireSync 10500000 5000000] @ [SilentRequest msg] @ rest \<and>
          length (filter is_silent_request (fst (cycle sample_config sample_input sample_state))) = 1 \<and>
          (rest = [] \<or> (\<exists>n. hd rest = Record n))"
    using inst [THEN conjunct2] sample_predict by blast
  then have c: "(\<exists>rest. fst (cycle sample_config sample_input sample_state) =
        [AcquireSync 10500000 5000000] @ [SilentRequest ?msg] @ rest \<and>
      (rest = [] \<or> (\<exists>n. hd rest = Record n))) \<and>
      length (filter is_silent_request (fst (cycle sample_config sample_input sample_state))) = 1"
    by auto
  have d: "int32_le (take 4 ?msg) = 1849" by (simp add: int32_le_def)
  show ?thesis
    using sample_front sample_synced_not_debug sample_config_time_util sample_predict a b c d
    by blast
qed

subsection \<open>Capacity passed to \<open>cross_correlate\<close> (C9)\<close>

text \<open>Every call of \<open>cross_correlate\<close> is made with the capacity \<open>MAX_SAMPLES * 2\<close>.\<close>

lemma cross_correlate_capacity:
  assumes e: "CrossCorrelate s l c \<in> set (fst (cycle cfg inp st))"
  shows "c = MAX_SAMPLES * 2"
proof -
  let ?fs = "sampling_frequency (FPGA_CLK cfg) (params st)"
  obtain ev1 r1 where f: "cycle_front cfg inp st = (ev1, r1)"
    by (cases "cycle_front cfg inp st")
  have n1: "CrossCorrelate s l c \<notin> set ev1" using cycle_front_events [OF f] by auto
  show ?thesis
  proof (cases r1)
    case (Stop e1 s1)
    then have "fst (cycle cfg inp st) = ev1" using f by (simp add: cycle_def)
    then show ?thesis using e n1 by simp
  next
    case (Go st1)
    obtain ev2 r2 where p: "predict_phase cfg inp st1 = (ev2, r2)"
      by (cases "predict_phase cfg inp st1")
    have n2: "CrossCorrelate s l c \<notin> set ev2"
      using predict_phase_events [OF p] by (auto simp: is_silent_request_def)
    show ?thesis
    proof (cases r2)
      case (Stop e2 s2)
      then have "fst (cycle cfg inp st) = ev1 @ ev2" using f Go p by (simp add: cycle_def)
      then show ?thesis using e n1 n2 by simp
    next
      case clk: (Go clk)
      obtain ev3 r3 where c: "capture_phase inp ?fs st1 clk = (ev3, r3)"
        by (cases "capture_phase inp ?fs st1 clk")
      have n3: "CrossCorrelate s l c \<notin> set ev3" using capture_phase_events [OF c] by auto
      show ?thesis
      proof (cases r3)
        case (Stop e3 s3)
        then have "fst (cycle cfg inp st) = ev1 @ ev2 @ ev3"
          using f Go p clk c by (simp add: cycle_def)
        then show ?thesis using e n1 n2 n3 by simp
      next
        case nt: (Go nt)
        obtain n t0 where nt': "nt = (n, t0)" by (cases nt)
        show ?thesis
        proof (cases "debug_stream st1")
          case True
          then have "fst (cycle cfg inp st) = ev1 @ ev2 @ ev3 @ [SendData 0 n]"
            using f Go p clk c nt nt' by (simp add: cycle_def debug_dump_def)
          then show ?thesis using e n1 n2 n3 by simp
        next
          case False
          then have "fst (cycle cfg inp st) =
              ev1 @ ev2 @ ev3 @ fst (process_phase inp ?fs st1 n t0)"
            using f Go p clk c nt nt' by (simp add: cycle_def split: prod.splits)
          then have "CrossCorrelate s l c \<in> set (fst (process_phase inp ?fs st1 n t0))"
            using e n1 n2 n3 by simp
          then show ?thesis by (rule process_phase_capacity)
        qed
      qed
    qed
  qed
qed

text \<open>
  C9. Claim: the capacity passed to \<open>cross_correlate\<close> is at most the number of entries of
  \<open>correlations\<close>. In the example iteration the call is made with capacity
  \<open>MAX_SAMPLES * 2 = 198000000\<close>, and \<open>correlations\<close> has 50000 entries; the value of
  \<open>MAX_SAMPLES\<close> in \<open>system_params.h\<close> gives 22000000, above 50000 as well.
\<close>

theorem correlate_capacity_exceeds_buffer:
  "CrossCorrelate 250000 768 (MAX_SAMPLES * 2) \<in>
     set (fst (cycle sample_config sample_input sample_state)) \<and>
   MAX_SAMPLES * 2 = 198000000 \<and> correlations_entries = 50000 \<and>
   correlations_entries < MAX_SAMPLES * 2 \<and>
   correlations_entries < MAX_SAMPLES_system_params * 2"
  by (simp add: sample_cycle MAX_SAMPLES_def correlations_entries_def
        MAX_SAMPLES_system_params_def SAMPLING_FREQUENCY_def)

end
